theory Spec2Isabelle
  imports Main
begin

section \<open>Data model (src/lib/minesweeper.ts, lines 1-35)\<close>

text \<open>
  A JavaScript \<open>number\<close> that holds a coordinate, a count or a time is modelled as an
  \<open>int\<close>. A thrown \<open>TypeError\<close> (reading a property of \<open>undefined\<close>) is the value
  \<open>None\<close> of an \<open>option\<close> result.
\<close>

record CellState =
  isMine :: bool
  isRevealed :: bool
  isFlagged :: bool
  adjacentMines :: int

type_synonym Board = "CellState list list"

datatype GameStatus = Idle | Playing | Won | Lost

datatype Difficulty = Beginner | Intermediate | Expert

record GameState =
  board :: Board
  status :: GameStatus
  difficulty :: Difficulty
  flagCount :: int
  elapsed :: int
  startTime :: "int option"
  losingCell :: "(int \<times> int) option"

record Config =
  rows :: nat
  cols :: nat
  mines :: int

fun DIFFICULTIES :: "Difficulty \<Rightarrow> Config" where
  "DIFFICULTIES Beginner = \<lparr>rows = 9, cols = 9, mines = 10\<rparr>"
| "DIFFICULTIES Intermediate = \<lparr>rows = 16, cols = 16, mines = 40\<rparr>"
| "DIFFICULTIES Expert = \<lparr>rows = 16, cols = 30, mines = 99\<rparr>"

section \<open>Pure helpers\<close>

definition makeCell :: CellState where
  "makeCell = \<lparr>isMine = False, isRevealed = False, isFlagged = False, adjacentMines = 0\<rparr>"

text \<open>
  \<open>b[r][c]\<close> followed by a property read: \<open>b[r]\<close> is \<open>undefined\<close> when \<open>r\<close> is not
  an index of \<open>b\<close>, and so is \<open>b[r][c]\<close> when \<open>c\<close> is not an index of the row; in both
  cases the property read that follows throws.
\<close>

definition cellAt :: "Board \<Rightarrow> int \<Rightarrow> int \<Rightarrow> CellState option" where
  "cellAt b r c =
     (if 0 \<le> r \<and> r < int (length b)
      then (let row = b ! nat r
            in if 0 \<le> c \<and> c < int (length row) then Some (row ! nat c) else None)
      else None)"

text \<open>\<open>xs.map((x, i) => f(i, x))\<close>: the callback gets the element and its index.\<close>

definition mapi :: "(nat \<Rightarrow> 'a \<Rightarrow> 'b) \<Rightarrow> 'a list \<Rightarrow> 'b list" where
  "mapi f xs = map (\<lambda>(i, x). f i x) (enumerate 0 xs)"

text \<open>
  \<open>neighbors\<close> reads \<open>board[0].length\<close>, which throws on a board with no row. The two
  nested loops run \<open>dr\<close> and \<open>dc\<close> over -1, 0, 1 in this order.
\<close>

definition neighborLoop :: "int \<Rightarrow> int \<Rightarrow> int \<Rightarrow> int \<Rightarrow> (int \<times> int) list" where
  "neighborLoop nrows ncols row col =
     [(row + dr, col + dc).
        dr \<leftarrow> [-1, 0, 1], dc \<leftarrow> [-1, 0, 1],
        \<not> (dr = 0 \<and> dc = 0),
        0 \<le> row + dr \<and> row + dr < nrows \<and> 0 \<le> col + dc \<and> col + dc < ncols]"

definition neighbors :: "Board \<Rightarrow> int \<Rightarrow> int \<Rightarrow> (int \<times> int) list option" where
  "neighbors b row col =
     (case b of
        [] \<Rightarrow> None
      | row0 # _ \<Rightarrow> Some (neighborLoop (int (length b)) (int (length row0)) row col))"

section \<open>Generator\<close>

definition makeEmptyBoard :: "nat \<Rightarrow> nat \<Rightarrow> Board" where
  "makeEmptyBoard nrows ncols = replicate nrows (replicate ncols makeCell)"

text \<open>
  The Fisher-Yates loop \<open>for (i = candidates.length - 1; i > 0; i--)\<close>. The random source
  is a parameter: \<open>rnd i\<close> stands for the draw made at loop index \<open>i\<close>.
  \<open>Math.random()\<close> lies in [0, 1), so \<open>Math.floor(Math.random() * (i + 1))\<close> ranges over
  exactly 0..i, which is what \<open>rnd i mod (i + 1)\<close> ranges over.
\<close>

fun shuffle :: "(nat \<Rightarrow> nat) \<Rightarrow> nat \<Rightarrow> int list \<Rightarrow> int list" where
  "shuffle rnd 0 cs = cs"
| "shuffle rnd (Suc i) cs =
     (let j = rnd (Suc i) mod (Suc i + 1)
      in shuffle rnd i (cs[Suc i := cs ! j, j := cs ! Suc i]))"

text \<open>\<open>xs.slice(0, e)\<close>: a negative end counts from the end of the array.\<close>

definition slice0 :: "'a list \<Rightarrow> int \<Rightarrow> 'a list" where
  "slice0 xs e = (if e < 0 then take (length xs - nat (- e)) xs else take (nat e) xs)"

definition placeMines :: "(nat \<Rightarrow> nat) \<Rightarrow> Board \<Rightarrow> int \<Rightarrow> int \<Rightarrow> int \<Rightarrow> Board option" where
  "placeMines rnd b mineCount safeRow safeCol =
     (case b of
        [] \<Rightarrow> None
      | row0 # _ \<Rightarrow>
          (case neighbors b safeRow safeCol of
             None \<Rightarrow> None
           | Some ns \<Rightarrow>
               (let ncols = length row0;
                    excluded = (safeRow * int ncols + safeCol) #
                               map (\<lambda>(r, c). r * int ncols + c) ns;
                    candidates = filter (\<lambda>i. i \<notin> set excluded)
                                   (map int [0 ..< length b * ncols]);
                    shuffled = shuffle rnd (length candidates - 1) candidates;
                    mineSet = set (slice0 shuffled mineCount)
                in Some (mapi (\<lambda>r row. mapi (\<lambda>c cell.
                     cell\<lparr>isMine := (int r * int ncols + int c \<in> mineSet)\<rparr>) row) b))))"

text \<open>
  \<open>computeAdjacent\<close> reads \<open>board[nr][nc].isMine\<close> for every neighbour of a cell that is
  not a mine; the read throws where the row \<open>nr\<close> is shorter than row 0.
\<close>

definition countMines :: "Board \<Rightarrow> (int \<times> int) list \<Rightarrow> nat option" where
  "countMines b ns =
     (case those (map (\<lambda>(nr, nc). cellAt b nr nc) ns) of
        None \<Rightarrow> None
      | Some cells \<Rightarrow> Some (length (filter isMine cells)))"

definition adjacentCell :: "Board \<Rightarrow> nat \<Rightarrow> nat \<Rightarrow> CellState \<Rightarrow> CellState option" where
  "adjacentCell b r c cell =
     (if isMine cell then Some (cell\<lparr>adjacentMines := 0\<rparr>)
      else (case neighbors b (int r) (int c) of
              None \<Rightarrow> None
            | Some ns \<Rightarrow>
                (case countMines b ns of
                   None \<Rightarrow> None
                 | Some n \<Rightarrow> Some (cell\<lparr>adjacentMines := int n\<rparr>))))"

definition computeAdjacent :: "Board \<Rightarrow> Board option" where
  "computeAdjacent b = those (mapi (\<lambda>r row. those (mapi (adjacentCell b r) row)) b)"

section \<open>Reveal engine\<close>

text \<open>
  \<open>next[r][c].isRevealed = true\<close> on the private copy \<open>next\<close>. Every write of the source
  follows a read of the same cell that succeeded, so the position is an index of the
  board.
\<close>

definition setRevealed :: "Board \<Rightarrow> int \<Rightarrow> int \<Rightarrow> Board" where
  "setRevealed b r c =
     b[nat r := (b ! nat r)[nat c := (b ! nat r ! nat c)\<lparr>isRevealed := True\<rparr>]]"

text \<open>The inner \<open>for\<close> loop of the flood fill, over the neighbours of the dequeued cell.\<close>

fun revealNeighbors ::
  "Board \<Rightarrow> (int \<times> int) list \<Rightarrow> (int \<times> int) list \<Rightarrow> (Board \<times> (int \<times> int) list) option" where
  "revealNeighbors nxt queue [] = Some (nxt, queue)"
| "revealNeighbors nxt queue ((nr, nc) # ns) =
     (case cellAt nxt nr nc of
        None \<Rightarrow> None
      | Some cell \<Rightarrow>
          if \<not> isRevealed cell \<and> \<not> isFlagged cell
          then revealNeighbors (setRevealed nxt nr nc) (queue @ [(nr, nc)]) ns
          else revealNeighbors nxt queue ns)"

text \<open>The number of unrevealed cells: it bounds the work left for the flood fill.\<close>

definition hiddenCount :: "Board \<Rightarrow> nat" where
  "hiddenCount b = sum_list (map (\<lambda>row. sum_list (map (\<lambda>c. if isRevealed c then 0 else 1) row)) b)"

lemma cellAt_Some:
  "cellAt b r c = Some cell \<longleftrightarrow>
     0 \<le> r \<and> r < int (length b) \<and> 0 \<le> c \<and> c < int (length (b ! nat r)) \<and>
     cell = b ! nat r ! nat c"
  by (auto simp: cellAt_def Let_def)

lemma nth_le_sum_list_map:
  fixes f :: "'a \<Rightarrow> nat"
  shows "i < length xs \<Longrightarrow> f (xs ! i) \<le> sum_list (map f xs)"
  using elem_le_sum_list [of i "map f xs"] by simp

lemma hiddenCount_setRevealed:
  assumes "cellAt b r c = Some cell" and "\<not> isRevealed cell"
  shows "Suc (hiddenCount (setRevealed b r c)) = hiddenCount b"
proof -
  let ?f = "\<lambda>c::CellState. if isRevealed c then 0 else (1::nat)"
  let ?g = "\<lambda>row. sum_list (map ?f row)"
  from assms have r: "nat r < length b" and c: "nat c < length (b ! nat r)"
    and cell: "cell = b ! nat r ! nat c"
    by (auto simp: cellAt_Some)
  have "?f (b ! nat r ! nat c) \<le> ?g (b ! nat r)"
    using c by (rule nth_le_sum_list_map)
  then have row: "Suc (?g ((b ! nat r)[nat c := cell\<lparr>isRevealed := True\<rparr>])) = ?g (b ! nat r)"
    using c assms(2) cell
    by (simp add: map_update sum_list_update del: list_update_id)
  have le: "?g (b ! nat r) \<le> sum_list (map ?g b)"
    using r by (rule nth_le_sum_list_map)
  have "hiddenCount (setRevealed b r c)
          = sum_list (map ?g b) + ?g ((b ! nat r)[nat c := cell\<lparr>isRevealed := True\<rparr>])
              - ?g (b ! nat r)"
    using r cell by (simp add: hiddenCount_def setRevealed_def map_update sum_list_update)
  with row le show ?thesis
    unfolding hiddenCount_def by linarith
qed

lemma revealNeighbors_measure:
  "revealNeighbors nxt queue ns = Some (nxt', queue') \<Longrightarrow>
     2 * hiddenCount nxt' + length queue' \<le> 2 * hiddenCount nxt + length queue"
proof (induction ns arbitrary: nxt queue)
  case Nil
  then show ?case by simp
next
  case (Cons p ns)
  obtain nr nc where p: "p = (nr, nc)" by (cases p)
  from Cons.prems p obtain cell where cell: "cellAt nxt nr nc = Some cell"
    by (auto split: option.splits)
  show ?case
  proof (cases "\<not> isRevealed cell \<and> \<not> isFlagged cell")
    case True
    with Cons.prems p cell
    have "revealNeighbors (setRevealed nxt nr nc) (queue @ [(nr, nc)]) ns = Some (nxt', queue')"
      by simp
    from Cons.IH [OF this] hiddenCount_setRevealed [OF cell] True
    show ?thesis by simp
  next
    case False
    with Cons.prems p cell have "revealNeighbors nxt queue ns = Some (nxt', queue')"
      by auto
    from Cons.IH [OF this] show ?thesis .
  qed
qed

text \<open>
  The \<open>while (queue.length > 0)\<close> loop: dequeue a cell; if it is a non-mine cell with
  \<open>adjacentMines = 0\<close>, reveal and enqueue its unrevealed, unflagged neighbours.
\<close>

function bfs :: "Board \<Rightarrow> (int \<times> int) list \<Rightarrow> Board option" where
  "bfs nxt [] = Some nxt"
| "bfs nxt ((r, c) # queue) =
     (case cellAt nxt r c of
        None \<Rightarrow> None
      | Some cell \<Rightarrow>
          if adjacentMines cell = 0 \<and> \<not> isMine cell
          then (case neighbors nxt r c of
                  None \<Rightarrow> None
                | Some ns \<Rightarrow>
                    (case revealNeighbors nxt queue ns of
                       None \<Rightarrow> None
                     | Some (nxt', queue') \<Rightarrow> bfs nxt' queue'))
          else bfs nxt queue)"
  by pat_completeness auto

termination
proof (relation "measure (\<lambda>(nxt, queue). 2 * hiddenCount nxt + length queue)", goal_cases)
  case 1
  show ?case by simp
next
  case (2 nxt r c queue cell ns res nxt' queue')
  then have "revealNeighbors nxt queue ns = Some (nxt', queue')" by simp
  from revealNeighbors_measure [OF this] show ?case by simp
next
  case 3
  then show ?case by simp
qed

definition revealCell :: "Board \<Rightarrow> int \<Rightarrow> int \<Rightarrow> Board option" where
  "revealCell b row col =
     (case cellAt b row col of
        None \<Rightarrow> None
      | Some cell \<Rightarrow>
          if isRevealed cell \<or> isFlagged cell then Some b
          else bfs (setRevealed b row col) [(row, col)])"

definition toggleFlag :: "Board \<Rightarrow> int \<Rightarrow> int \<Rightarrow> Board option" where
  "toggleFlag b row col =
     (case cellAt b row col of
        None \<Rightarrow> None
      | Some cell \<Rightarrow>
          if isRevealed cell then Some b
          else Some (mapi (\<lambda>ri r. mapi (\<lambda>ci c.
                 if int ri = row \<and> int ci = col then c\<lparr>isFlagged := \<not> isFlagged c\<rparr> else c) r) b))"

text \<open>
  The loop of \<open>chordReveal\<close>: the tests read the board the function was called with, the
  reveals accumulate in \<open>next\<close>.
\<close>

fun chordLoop :: "Board \<Rightarrow> (int \<times> int) list \<Rightarrow> Board \<Rightarrow> Board option" where
  "chordLoop b [] nxt = Some nxt"
| "chordLoop b ((r, c) # ns) nxt =
     (case cellAt b r c of
        None \<Rightarrow> None
      | Some cell \<Rightarrow>
          if \<not> isFlagged cell \<and> \<not> isRevealed cell
          then (case revealCell nxt r c of
                  None \<Rightarrow> None
                | Some nxt' \<Rightarrow> chordLoop b ns nxt')
          else chordLoop b ns nxt)"

definition countFlagged :: "Board \<Rightarrow> (int \<times> int) list \<Rightarrow> nat option" where
  "countFlagged b ns =
     (case those (map (\<lambda>(r, c). cellAt b r c) ns) of
        None \<Rightarrow> None
      | Some cells \<Rightarrow> Some (length (filter isFlagged cells)))"

definition chordReveal :: "Board \<Rightarrow> int \<Rightarrow> int \<Rightarrow> Board option" where
  "chordReveal b row col =
     (case cellAt b row col of
        None \<Rightarrow> None
      | Some cell \<Rightarrow>
          if \<not> isRevealed cell \<or> adjacentMines cell = 0 then Some b
          else (case neighbors b row col of
                  None \<Rightarrow> None
                | Some nbrs \<Rightarrow>
                    (case countFlagged b nbrs of
                       None \<Rightarrow> None
                     | Some flagged \<Rightarrow>
                         if int flagged \<noteq> adjacentMines cell then Some b
                         else chordLoop b nbrs b)))"

text \<open>The two counters of \<open>checkWin\<close>, as a pair \<open>(revealed, total)\<close>.\<close>

definition countCell :: "CellState \<Rightarrow> int \<times> int \<Rightarrow> int \<times> int" where
  "countCell cell acc =
     (case acc of (revealed, tot) \<Rightarrow>
        (if isRevealed cell then revealed + 1 else revealed, tot + 1))"

definition checkWin :: "Board \<Rightarrow> int \<Rightarrow> bool" where
  "checkWin b totalMines =
     (case fold (\<lambda>row acc. fold countCell row acc) b (0, 0) of
        (revealed, tot) \<Rightarrow> revealed = tot - totalMines)"

definition revealAllMines :: "Board \<Rightarrow> Board" where
  "revealAllMines b =
     map (\<lambda>row. map (\<lambda>cell. if isMine cell then cell\<lparr>isRevealed := True\<rparr> else cell) row) b"

section \<open>Game state machine (src/components/Game.tsx, lines 22-140)\<close>

datatype Action =
    REVEAL int int
  | FLAG int int
  | CHORD int int
  | NEW_GAME
  | SET_DIFFICULTY Difficulty
  | TICK

definition makeInitialState :: "Difficulty \<Rightarrow> GameState" where
  "makeInitialState d =
     \<lparr>board = makeEmptyBoard (rows (DIFFICULTIES d)) (cols (DIFFICULTIES d)),
      status = Idle, difficulty = d, flagCount = 0, elapsed = 0,
      startTime = None, losingCell = None\<rparr>"

text \<open>
  The scan of the \<open>CHORD\<close> case, \<open>r\<close> over the rows and \<open>c\<close> over the cells of row \<open>r\<close>,
  returning at the first cell that is a revealed mine.
\<close>

fun scanRow :: "CellState list \<Rightarrow> nat \<Rightarrow> nat option" where
  "scanRow [] c = None"
| "scanRow (cell # cells) c =
     (if isMine cell \<and> isRevealed cell then Some c else scanRow cells (Suc c))"

fun scanBoard :: "Board \<Rightarrow> nat \<Rightarrow> (nat \<times> nat) option" where
  "scanBoard [] r = None"
| "scanBoard (row # rest) r =
     (case scanRow row 0 of
        Some c \<Rightarrow> Some (r, c)
      | None \<Rightarrow> scanBoard rest (Suc r))"

text \<open>The first-click branch of \<open>REVEAL\<close>: mines are placed only in status \<open>idle\<close>.\<close>

definition firstClick ::
  "(nat \<Rightarrow> nat) \<Rightarrow> GameState \<Rightarrow> int \<Rightarrow> int \<Rightarrow> (Board \<times> GameStatus) option" where
  "firstClick rnd s row col =
     (if status s = Idle
      then (case placeMines rnd (board s) (mines (DIFFICULTIES (difficulty s))) row col of
              None \<Rightarrow> None
            | Some b1 \<Rightarrow>
                (case computeAdjacent b1 of
                   None \<Rightarrow> None
                 | Some b2 \<Rightarrow> Some (b2, Playing)))
      else Some (board s, status s))"

fun reducer :: "(nat \<Rightarrow> nat) \<Rightarrow> GameState \<Rightarrow> Action \<Rightarrow> GameState option" where
  "reducer rnd s NEW_GAME = Some (makeInitialState (difficulty s))"
| "reducer rnd s (SET_DIFFICULTY d) = Some (makeInitialState d)"
| "reducer rnd s TICK =
     (if status s \<noteq> Playing then Some s else Some (s\<lparr>elapsed := elapsed s + 1\<rparr>))"
| "reducer rnd s (FLAG row col) =
     (if status s = Won \<or> status s = Lost then Some s
      else (case cellAt (board s) row col of
              None \<Rightarrow> None
            | Some cell \<Rightarrow>
                if isRevealed cell then Some s
                else (case toggleFlag (board s) row col of
                        None \<Rightarrow> None
                      | Some newBoard \<Rightarrow>
                          (case cellAt newBoard row col of
                             None \<Rightarrow> None
                           | Some cell' \<Rightarrow>
                               Some (s\<lparr>board := newBoard,
                                       flagCount := flagCount s + (if isFlagged cell' then 1 else - 1),
                                       status := (if status s = Idle then Playing else status s)\<rparr>)))))"
| "reducer rnd s (REVEAL row col) =
     (if status s = Won \<or> status s = Lost then Some s
      else (case cellAt (board s) row col of
              None \<Rightarrow> None
            | Some cell \<Rightarrow>
                if isRevealed cell \<or> isFlagged cell then Some s
                else (case firstClick rnd s row col of
                        None \<Rightarrow> None
                      | Some (b0, st) \<Rightarrow>
                          (case revealCell b0 row col of
                             None \<Rightarrow> None
                           | Some b \<Rightarrow>
                               (case cellAt b row col of
                                  None \<Rightarrow> None
                                | Some cell' \<Rightarrow>
                                    if isMine cell'
                                    then Some (s\<lparr>board := revealAllMines b, status := Lost,
                                                 losingCell := Some (row, col)\<rparr>)
                                    else if checkWin b (mines (DIFFICULTIES (difficulty s)))
                                    then Some (s\<lparr>board := b, status := Won\<rparr>)
                                    else Some (s\<lparr>board := b, status := st\<rparr>))))))"
| "reducer rnd s (CHORD row col) =
     (if status s \<noteq> Playing then Some s
      else (case chordReveal (board s) row col of
              None \<Rightarrow> None
            | Some b \<Rightarrow>
                (case scanBoard b 0 of
                   Some (r, c) \<Rightarrow>
                     Some (s\<lparr>board := revealAllMines b, status := Lost,
                             losingCell := Some (int r, int c)\<rparr>)
                 | None \<Rightarrow>
                     if checkWin b (mines (DIFFICULTIES (difficulty s)))
                     then Some (s\<lparr>board := b, status := Won\<rparr>)
                     else Some (s\<lparr>board := b\<rparr>))))"

section \<open>The win test (claim C2)\<close>

definition revealedCount :: "Board \<Rightarrow> nat" where
  "revealedCount b = length (filter isRevealed (concat b))"

definition totalCells :: "Board \<Rightarrow> nat" where
  "totalCells b = length (concat b)"

definition mineCells :: "Board \<Rightarrow> nat" where
  "mineCells b = length (filter isMine (concat b))"

lemma fold_countCell:
  "fold countCell row (rv, tot) =
     (rv + int (length (filter isRevealed row)), tot + int (length row))"
  by (induction row arbitrary: rv tot) (simp_all add: countCell_def)

lemma fold_rows_countCell:
  "fold (\<lambda>row acc. fold countCell row acc) b (rv, tot) =
     (rv + int (length (filter isRevealed (concat b))), tot + int (length (concat b)))"
  by (induction b arbitrary: rv tot) (simp_all add: fold_countCell)

lemma checkWin_counts:
  "checkWin b totalMines \<longleftrightarrow> int (revealedCount b) = int (totalCells b) - totalMines"
  by (simp add: checkWin_def fold_rows_countCell revealedCount_def totalCells_def)

lemma filter_count_le:
  "(\<And>x. x \<in> set xs \<Longrightarrow> P x \<Longrightarrow> Q x) \<Longrightarrow> length (filter P xs) \<le> length (filter Q xs)"
  by (induction xs) auto

lemma filter_count_eq_imp:
  "length (filter P xs) = length (filter Q xs) \<Longrightarrow> (\<forall>x \<in> set xs. P x \<longrightarrow> Q x) \<Longrightarrow>
     (\<forall>x \<in> set xs. Q x \<longrightarrow> P x)"
proof (induction xs)
  case Nil
  then show ?case by simp
next
  case (Cons x xs)
  from Cons.prems(2) have sub: "\<forall>y \<in> set xs. P y \<longrightarrow> Q y" and px: "P x \<longrightarrow> Q x"
    by simp_all
  from sub have le: "length (filter P xs) \<le> length (filter Q xs)"
    by (intro filter_count_le) simp
  from Cons.prems(1) px le have eq: "length (filter P xs) = length (filter Q xs)" and qx: "Q x \<longrightarrow> P x"
    by (simp_all split: if_splits)
  from Cons.IH [OF eq sub] qx show ?case by simp
qed

lemma checkWin_all_safe_revealed:
  assumes "totalMines = int (mineCells b)"
    and "\<forall>cell \<in> set (concat b). isMine cell \<longrightarrow> \<not> isRevealed cell"
  shows "checkWin b totalMines \<longleftrightarrow> (\<forall>cell \<in> set (concat b). \<not> isMine cell \<longrightarrow> isRevealed cell)"
proof -
  let ?xs = "concat b"
  have split: "length ?xs = length (filter isMine ?xs) + length (filter (\<lambda>c. \<not> isMine c) ?xs)"
    by (rule sum_length_filter_compl [symmetric])
  have cw: "checkWin b totalMines \<longleftrightarrow>
              length (filter isRevealed ?xs) = length (filter (\<lambda>c. \<not> isMine c) ?xs)"
    using assms(1) split
    by (simp add: checkWin_counts revealedCount_def totalCells_def mineCells_def)
  show ?thesis
  proof
    assume "checkWin b totalMines"
    with cw have "length (filter isRevealed ?xs) = length (filter (\<lambda>c. \<not> isMine c) ?xs)"
      by simp
    moreover from assms(2) have "\<forall>cell \<in> set ?xs. isRevealed cell \<longrightarrow> \<not> isMine cell"
      by blast
    ultimately show "\<forall>cell \<in> set ?xs. \<not> isMine cell \<longrightarrow> isRevealed cell"
      by (rule filter_count_eq_imp)
  next
    assume "\<forall>cell \<in> set ?xs. \<not> isMine cell \<longrightarrow> isRevealed cell"
    with assms(2) have "filter isRevealed ?xs = filter (\<lambda>c. \<not> isMine c) ?xs"
      by (intro filter_cong) auto
    with cw show "checkWin b totalMines" by simp
  qed
qed

text \<open>
  Claim C2, as amended. \<open>checkWin\<close> returns true exactly when the number of revealed
  cells equals the number of cells minus \<open>totalMines\<close>. When \<open>totalMines\<close> is the number
  of mine cells of the board and no mine cell is revealed, this is the case exactly when
  every cell that is not a mine is revealed; so it returns false whenever a non-mine cell
  remains hidden.
\<close>

theorem checkWin_spec:
  "(checkWin b totalMines \<longleftrightarrow> int (revealedCount b) = int (totalCells b) - totalMines) \<and>
   (totalMines = int (mineCells b) \<and>
    (\<forall>cell \<in> set (concat b). isMine cell \<longrightarrow> \<not> isRevealed cell) \<longrightarrow>
      (checkWin b totalMines \<longleftrightarrow>
         (\<forall>cell \<in> set (concat b). \<not> isMine cell \<longrightarrow> isRevealed cell)))"
proof (intro conjI impI)
  show "checkWin b totalMines \<longleftrightarrow> int (revealedCount b) = int (totalCells b) - totalMines"
    by (rule checkWin_counts)
next
  assume "totalMines = int (mineCells b) \<and>
    (\<forall>cell \<in> set (concat b). isMine cell \<longrightarrow> \<not> isRevealed cell)"
  then show "checkWin b totalMines \<longleftrightarrow>
         (\<forall>cell \<in> set (concat b). \<not> isMine cell \<longrightarrow> isRevealed cell)"
    by (intro checkWin_all_safe_revealed) simp_all
qed

text \<open>
  Claim C2 as stated fails: with one flagged hidden safe cell, one revealed cell and
  \<open>totalMines = 1\<close>, \<open>checkWin\<close> returns true although a non-mine cell is hidden.
\<close>

definition flaggedOnly :: Board where
  "flaggedOnly = [[makeCell\<lparr>isFlagged := True\<rparr>, makeCell\<lparr>isRevealed := True\<rparr>]]"

theorem checkWin_hidden_safe_counterexample:
  "checkWin flaggedOnly 1 \<and> \<not> isMine (flaggedOnly ! 0 ! 0) \<and> \<not> isRevealed (flaggedOnly ! 0 ! 0)"
  by (simp add: checkWin_def flaggedOnly_def makeCell_def countCell_def)

definition oneMine :: Board where
  "oneMine = [[makeCell\<lparr>isMine := True\<rparr>, makeCell\<lparr>isRevealed := True\<rparr>]]"

theorem checkWin_spec_witness:
  "1 = int (mineCells oneMine) \<and>
   list_all (\<lambda>cell. isMine cell \<longrightarrow> \<not> isRevealed cell) (concat oneMine) \<and>
   checkWin oneMine 1 \<and>
   int (revealedCount oneMine) = int (totalCells oneMine) - 1 \<and>
   list_all (\<lambda>cell. \<not> isMine cell \<longrightarrow> isRevealed cell) (concat oneMine)"
  using checkWin_spec [of oneMine 1]
  by (simp add: oneMine_def makeCell_def mineCells_def revealedCount_def totalCells_def)


section \<open>Terminal states and ticks (claim C8)\<close>

text \<open>
  Claim C8. In status \<open>won\<close> or \<open>lost\<close> the moves Reveal, Flag, Chord and Tick return the
  state unchanged, for every coordinate, while NewGame and SetDifficulty return a different
  state. Tick returns the state unchanged in every status but \<open>playing\<close>, where it adds 1
  to \<open>elapsed\<close> and changes nothing else.
\<close>

theorem terminal_moves_noop:
  "(status s = Won \<or> status s = Lost \<longrightarrow>
      reducer rnd s (REVEAL r c) = Some s \<and> reducer rnd s (FLAG r c) = Some s \<and>
      reducer rnd s (CHORD r c) = Some s \<and> reducer rnd s TICK = Some s \<and>
      reducer rnd s NEW_GAME \<noteq> Some s \<and> reducer rnd s (SET_DIFFICULTY d) \<noteq> Some s) \<and>
   (status s \<noteq> Playing \<longrightarrow> reducer rnd s TICK = Some s) \<and>
   (status s = Playing \<longrightarrow> reducer rnd s TICK = Some (s\<lparr>elapsed := elapsed s + 1\<rparr>))"
proof -
  have "status s = Won \<or> status s = Lost \<Longrightarrow> makeInitialState d' \<noteq> s" for d'
    by (auto simp: makeInitialState_def)
  then show ?thesis by auto
qed

definition wonState :: GameState where
  "wonState = \<lparr>board = [[makeCell\<lparr>isRevealed := True\<rparr>]], status = Won, difficulty = Beginner,
                flagCount = 0, elapsed = 7, startTime = None, losingCell = None\<rparr>"

theorem terminal_moves_noop_witness:
  "status wonState = Won \<and>
   reducer (\<lambda>i. 0) wonState (REVEAL 0 0) = Some wonState \<and>
   reducer (\<lambda>i. 0) wonState (FLAG 0 0) = Some wonState \<and>
   reducer (\<lambda>i. 0) wonState (CHORD 0 0) = Some wonState \<and>
   reducer (\<lambda>i. 0) wonState TICK = Some wonState \<and>
   reducer (\<lambda>i. 0) wonState NEW_GAME \<noteq> Some wonState \<and>
   status (wonState\<lparr>status := Playing\<rparr>) = Playing \<and>
   reducer (\<lambda>i. 0) (wonState\<lparr>status := Playing\<rparr>) TICK =
     Some (wonState\<lparr>status := Playing, elapsed := 8\<rparr>)"
  using terminal_moves_noop [of wonState "\<lambda>i. 0" 0 0 Beginner]
        terminal_moves_noop [of "wonState\<lparr>status := Playing\<rparr>" "\<lambda>i. 0" 0 0 Beginner]
  by (simp add: wonState_def)

section \<open>Boards: indexed maps, cell-wise relations, shapes\<close>

subsection \<open>Indexed maps\<close>

lemma length_mapi [simp]: "length (mapi f xs) = length xs"
  by (simp add: mapi_def)

lemma nth_mapi [simp]: "i < length xs \<Longrightarrow> mapi f xs ! i = f i (xs ! i)"
  by (simp add: mapi_def nth_enumerate_eq)

lemma map_mapi: "map g (mapi f xs) = mapi (\<lambda>i x. g (f i x)) xs"
  by (rule nth_equalityI) simp_all

lemma mapi_no_index: "mapi (\<lambda>i. h) xs = map h xs"
  by (rule nth_equalityI) simp_all

lemma mapi_cong_nth:
  "(\<And>i. i < length xs \<Longrightarrow> f i (xs ! i) = g i (xs ! i)) \<Longrightarrow> mapi f xs = mapi g xs"
  by (rule nth_equalityI) simp_all

subsection \<open>Boards related cell by cell\<close>

definition boardRel :: "(CellState \<Rightarrow> CellState \<Rightarrow> bool) \<Rightarrow> Board \<Rightarrow> Board \<Rightarrow> bool" where
  "boardRel R b b' = list_all2 (list_all2 R) b b'"

lemma boardRel_nth:
  "boardRel R b b' \<longleftrightarrow>
     length b' = length b \<and>
     (\<forall>i < length b. length (b' ! i) = length (b ! i) \<and>
        (\<forall>j < length (b ! i). R (b ! i ! j) (b' ! i ! j)))"
  unfolding boardRel_def list_all2_conv_all_nth by auto

lemma boardRel_refl: "(\<And>x. R x x) \<Longrightarrow> boardRel R b b"
  by (simp add: boardRel_nth)

lemma boardRel_trans:
  assumes "boardRel R b1 b2" and "boardRel R b2 b3"
    and "\<And>x y z. R x y \<Longrightarrow> R y z \<Longrightarrow> R x z"
  shows "boardRel R b1 b3"
proof -
  have "R (b1 ! i ! j) (b3 ! i ! j)" if "i < length b1" "j < length (b1 ! i)" for i j
  proof -
    from that assms(1) have "R (b1 ! i ! j) (b2 ! i ! j)" by (simp add: boardRel_nth)
    moreover from that assms(1,2) have "R (b2 ! i ! j) (b3 ! i ! j)" by (simp add: boardRel_nth)
    ultimately show ?thesis by (rule assms(3))
  qed
  with assms(1,2) show ?thesis by (simp add: boardRel_nth)
qed

lemma boardRel_mono:
  "boardRel R b b' \<Longrightarrow> (\<And>x y. R x y \<Longrightarrow> S x y) \<Longrightarrow> boardRel S b b'"
  unfolding boardRel_nth by auto

lemma boardRel_shape: "boardRel R b b' \<Longrightarrow> map length b' = map length b"
  unfolding boardRel_nth by (auto intro: nth_equalityI)

lemma boardRel_field:
  assumes "boardRel R b b'" and "\<And>x y. R x y \<Longrightarrow> g y = g x"
  shows "map (map g) b' = map (map g) b"
proof (rule nth_equalityI)
  show "length (map (map g) b') = length (map (map g) b)"
    using assms(1) by (simp add: boardRel_nth)
next
  fix i assume "i < length (map (map g) b')"
  with assms(1) have i: "i < length b" "i < length b'" by (simp_all add: boardRel_nth)
  with assms(1) have "map g (b' ! i) = map g (b ! i)"
    by (intro nth_equalityI) (auto simp: boardRel_nth intro: assms(2))
  with i show "map (map g) b' ! i = map (map g) b ! i" by simp
qed

lemma boardRel_map:
  "(\<And>x. R x (f x)) \<Longrightarrow> boardRel R b (map (map f) b)"
  by (simp add: boardRel_nth)

lemma boardRel_mapi:
  "(\<And>i j. i < length b \<Longrightarrow> j < length (b ! i) \<Longrightarrow> R (b ! i ! j) (f i j (b ! i ! j))) \<Longrightarrow>
     boardRel R b (mapi (\<lambda>i row. mapi (f i) row) b)"
  by (simp add: boardRel_nth)

lemma boardRel_cellAt:
  assumes "boardRel R b b'"
  shows "(cellAt b' r c = None \<longleftrightarrow> cellAt b r c = None) \<and>
         (\<forall>x y. cellAt b r c = Some x \<longrightarrow> cellAt b' r c = Some y \<longrightarrow> R x y)"
  using assms unfolding boardRel_nth cellAt_def Let_def
  by (auto simp: nat_less_iff)

subsection \<open>Shapes\<close>

definition rectangular :: "Board \<Rightarrow> bool" where
  "rectangular b = list_all (\<lambda>row. length row = length (hd b)) b"

lemma cellAt_shape:
  "map length b' = map length b \<Longrightarrow> (cellAt b' r c = None \<longleftrightarrow> cellAt b r c = None)"
proof -
  assume s: "map length b' = map length b"
  then have l: "length b' = length b" by (rule map_eq_imp_length_eq)
  have "length (b' ! i) = length (b ! i)" if "i < length b" for i
    using that s l by (metis nth_map)
  with l show ?thesis
    by (auto simp: cellAt_def Let_def nat_less_iff)
qed

lemma neighbors_shape:
  assumes "map length b' = map length b"
  shows "neighbors b' r c = neighbors b r c"
proof (cases b)
  case Nil
  with assms show ?thesis by (simp add: neighbors_def)
next
  case (Cons x xs)
  with assms obtain y ys where "b' = y # ys" "length y = length x" "length ys = length xs"
    by (cases b') (auto dest: map_eq_imp_length_eq)
  with Cons show ?thesis by (simp add: neighbors_def)
qed

lemma near_cases: "x - y \<in> {-1, 0, 1} \<longleftrightarrow> \<bar>x - y\<bar> \<le> 1" for x y :: int
  by auto

lemma mem_neighborLoop:
  "(r', c') \<in> set (neighborLoop nrows ncols r c) \<longleftrightarrow>
     (r' - r \<in> {-1, 0, 1} \<and> c' - c \<in> {-1, 0, 1} \<and> \<not> (r' = r \<and> c' = c) \<and>
      0 \<le> r' \<and> r' < nrows \<and> 0 \<le> c' \<and> c' < ncols)"
  unfolding neighborLoop_def by simp presburger

lemma neighbors_mem:
  assumes "neighbors b r c = Some ns"
  shows "(r', c') \<in> set ns \<longleftrightarrow>
     \<bar>r' - r\<bar> \<le> 1 \<and> \<bar>c' - c\<bar> \<le> 1 \<and> \<not> (r' = r \<and> c' = c) \<and>
     0 \<le> r' \<and> r' < int (length b) \<and> 0 \<le> c' \<and> c' < int (length (hd b))"
proof (cases b)
  case Nil
  with assms show ?thesis by (simp add: neighbors_def)
next
  case (Cons x xs)
  with assms have "ns = neighborLoop (int (length b)) (int (length (hd b))) r c"
    by (simp add: neighbors_def)
  then show ?thesis
    by (simp only: mem_neighborLoop near_cases)
qed

lemma rectangular_shape:
  "map length b' = map length b \<Longrightarrow> rectangular b' = rectangular b"
proof -
  assume s: "map length b' = map length b"
  have "rectangular x \<longleftrightarrow> list_all (\<lambda>n. n = hd (map length x)) (map length x)" for x :: Board
    by (cases x) (simp_all add: rectangular_def list_all_iff)
  with s show ?thesis by simp
qed

lemma rectangular_cellAt:
  "rectangular b \<Longrightarrow>
     cellAt b r c \<noteq> None \<longleftrightarrow> 0 \<le> r \<and> r < int (length b) \<and> 0 \<le> c \<and> c < int (length (hd b))"
  by (auto simp: rectangular_def cellAt_def Let_def list_all_iff nat_less_iff)

lemma neighbors_total: "b \<noteq> [] \<Longrightarrow> \<exists>ns. neighbors b r c = Some ns"
  by (cases b) (simp_all add: neighbors_def)

lemma neighbors_in_bounds:
  "rectangular b \<Longrightarrow> neighbors b r c = Some ns \<Longrightarrow> (nr, nc) \<in> set ns \<Longrightarrow> cellAt b nr nc \<noteq> None"
  using rectangular_cellAt [of b nr nc] neighbors_mem [of b r c ns nr nc] by simp

section \<open>Reveals change cells only by revealing them\<close>

subsection \<open>What a reveal may do to a cell\<close>

definition cellStep :: "CellState \<Rightarrow> CellState \<Rightarrow> bool" where
  "cellStep x y \<longleftrightarrow> y = x \<or> (\<not> isRevealed x \<and> \<not> isFlagged x \<and> y = x\<lparr>isRevealed := True\<rparr>)"

lemma cellStep_refl: "cellStep x x"
  by (simp add: cellStep_def)

lemma cellStep_trans: "cellStep x y \<Longrightarrow> cellStep y z \<Longrightarrow> cellStep x z"
  by (auto simp: cellStep_def)

lemma setRevealed_nth:
  assumes "cellAt b r c = Some cell" and "i < length b" and "j < length (b ! i)"
  shows "setRevealed b r c ! i ! j =
           (if int i = r \<and> int j = c then cell\<lparr>isRevealed := True\<rparr> else b ! i ! j)"
proof -
  from assms(1) have r: "0 \<le> r" "nat r < length b" and c: "0 \<le> c" "nat c < length (b ! nat r)"
    and cell: "cell = b ! nat r ! nat c"
    by (auto simp: cellAt_Some)
  show ?thesis
  proof (cases "i = nat r")
    case True
    with r c cell assms(3) show ?thesis
      by (auto simp: setRevealed_def nth_list_update)
  next
    case False
    with r assms(2) show ?thesis
      by (auto simp: setRevealed_def nth_list_update)
  qed
qed

lemma setRevealed_shape: "map length (setRevealed b r c) = map length b"
proof (cases "nat r < length b")
  case True
  then show ?thesis
    by (intro nth_equalityI) (auto simp: setRevealed_def nth_list_update)
next
  case False
  then show ?thesis by (simp add: setRevealed_def list_update_beyond)
qed

lemma setRevealed_step:
  assumes "cellAt b r c = Some cell" and "\<not> isRevealed cell" and "\<not> isFlagged cell"
  shows "boardRel cellStep b (setRevealed b r c)"
proof -
  have len: "length (setRevealed b r c) = length b"
    by (simp add: setRevealed_def)
  have rows: "length (setRevealed b r c ! i) = length (b ! i)" if "i < length b" for i
    using that setRevealed_shape [of b r c] by (metis len nth_map)
  have "cellStep (b ! i ! j) (setRevealed b r c ! i ! j)"
    if "i < length b" "j < length (b ! i)" for i j
  proof (cases "int i = r \<and> int j = c")
    case True
    with assms have "b ! i ! j = cell" by (auto simp: cellAt_Some)
    with True assms that show ?thesis
      by (simp add: setRevealed_nth [OF assms(1)] cellStep_def)
  next
    case False
    with that show ?thesis
      by (auto simp: setRevealed_nth [OF assms(1)] cellStep_def)
  qed
  with len rows show ?thesis by (simp add: boardRel_nth)
qed

lemma revealNeighbors_step:
  "revealNeighbors nxt queue ns = Some (nxt', queue') \<Longrightarrow> boardRel cellStep nxt nxt'"
proof (induction ns arbitrary: nxt queue)
  case Nil
  then show ?case by (simp add: boardRel_refl cellStep_refl)
next
  case (Cons p ns)
  obtain nr nc where p: "p = (nr, nc)" by (cases p)
  from Cons.prems p obtain cell where cell: "cellAt nxt nr nc = Some cell"
    by (auto split: option.splits)
  show ?case
  proof (cases "\<not> isRevealed cell \<and> \<not> isFlagged cell")
    case True
    with Cons.prems p cell
    have "revealNeighbors (setRevealed nxt nr nc) (queue @ [(nr, nc)]) ns = Some (nxt', queue')"
      by simp
    then have "boardRel cellStep (setRevealed nxt nr nc) nxt'" by (rule Cons.IH)
    moreover have "boardRel cellStep nxt (setRevealed nxt nr nc)"
      using cell True by (auto intro: setRevealed_step)
    ultimately show ?thesis by (meson boardRel_trans cellStep_trans)
  next
    case False
    with Cons.prems p cell have "revealNeighbors nxt queue ns = Some (nxt', queue')"
      by auto
    then show ?thesis by (rule Cons.IH)
  qed
qed

lemma bfs_step: "bfs nxt queue = Some b' \<Longrightarrow> boardRel cellStep nxt b'"
proof (induction nxt queue rule: bfs.induct)
  case (1 nxt)
  then show ?case by (simp add: boardRel_refl cellStep_refl)
next
  case (2 nxt r c queue)
  from "2.prems" obtain cell where cell: "cellAt nxt r c = Some cell"
    by (auto split: option.splits)
  show ?case
  proof (cases "adjacentMines cell = 0 \<and> \<not> isMine cell")
    case True
    with "2.prems" cell obtain ns nxt' queue' where
      ns: "neighbors nxt r c = Some ns" and
      rn: "revealNeighbors nxt queue ns = Some (nxt', queue')" and
      rec: "bfs nxt' queue' = Some b'"
      by (auto split: option.splits)
    from "2.IH"(1) [OF cell True ns rn refl rec] have "boardRel cellStep nxt' b'" .
    with revealNeighbors_step [OF rn] show ?thesis
      by (meson boardRel_trans cellStep_trans)
  next
    case False
    with "2.prems" cell have "bfs nxt queue = Some b'" by auto
    with "2.IH"(2) [OF cell False] show ?thesis by simp
  qed
qed

lemma revealCell_step: "revealCell b r c = Some b' \<Longrightarrow> boardRel cellStep b b'"
proof -
  assume rc: "revealCell b r c = Some b'"
  then obtain cell where cell: "cellAt b r c = Some cell"
    by (auto simp: revealCell_def split: option.splits)
  show ?thesis
  proof (cases "isRevealed cell \<or> isFlagged cell")
    case True
    with rc cell show ?thesis by (simp add: revealCell_def boardRel_refl cellStep_refl)
  next
    case False
    with rc cell have "bfs (setRevealed b r c) [(r, c)] = Some b'"
      by (simp add: revealCell_def)
    then have "boardRel cellStep (setRevealed b r c) b'" by (rule bfs_step)
    moreover have "boardRel cellStep b (setRevealed b r c)"
      using cell False by (auto intro: setRevealed_step)
    ultimately show ?thesis by (meson boardRel_trans cellStep_trans)
  qed
qed

lemma chordLoop_step: "chordLoop b ns nxt = Some b' \<Longrightarrow> boardRel cellStep nxt b'"
proof (induction ns arbitrary: nxt)
  case Nil
  then show ?case by (simp add: boardRel_refl cellStep_refl)
next
  case (Cons p ns)
  obtain r c where p: "p = (r, c)" by (cases p)
  from Cons.prems p obtain cell where cell: "cellAt b r c = Some cell"
    by (auto split: option.splits)
  show ?case
  proof (cases "\<not> isFlagged cell \<and> \<not> isRevealed cell")
    case True
    with Cons.prems p cell obtain nxt' where
      rc: "revealCell nxt r c = Some nxt'" and rest: "chordLoop b ns nxt' = Some b'"
      by (auto split: option.splits)
    from Cons.IH [OF rest] revealCell_step [OF rc] show ?thesis
      by (meson boardRel_trans cellStep_trans)
  next
    case False
    with Cons.prems p cell have "chordLoop b ns nxt = Some b'" by auto
    then show ?thesis by (rule Cons.IH)
  qed
qed

lemma chordReveal_step: "chordReveal b r c = Some b' \<Longrightarrow> boardRel cellStep b b'"
  by (auto simp: chordReveal_def boardRel_refl cellStep_refl
           split: option.splits if_splits dest: chordLoop_step)

subsection \<open>The reveal returns on a rectangular board\<close>

lemma revealNeighbors_total:
  assumes "\<forall>(r, c) \<in> set ns. cellAt nxt r c \<noteq> None"
  shows "\<exists>nxt' queue'. revealNeighbors nxt queue ns = Some (nxt', queue') \<and>
           set queue' \<subseteq> set queue \<union> set ns"
  using assms
proof (induction ns arbitrary: nxt queue)
  case Nil
  then show ?case by simp
next
  case (Cons p ns)
  obtain nr nc where p: "p = (nr, nc)" by (cases p)
  with Cons.prems obtain cell where cell: "cellAt nxt nr nc = Some cell" by auto
  have rest: "\<forall>(r, c) \<in> set ns. cellAt (setRevealed nxt nr nc) r c \<noteq> None"
    using Cons.prems cellAt_shape [OF setRevealed_shape] by auto
  show ?case
  proof (cases "\<not> isRevealed cell \<and> \<not> isFlagged cell")
    case True
    from Cons.IH [OF rest, of "queue @ [(nr, nc)]"] True cell p show ?thesis
      by auto
  next
    case False
    from Cons.prems have "\<forall>(r, c) \<in> set ns. cellAt nxt r c \<noteq> None" by simp
    from Cons.IH [OF this, of queue] False cell p show ?thesis
      by auto
  qed
qed

lemma bfs_total:
  "rectangular nxt \<Longrightarrow> \<forall>(r, c) \<in> set queue. cellAt nxt r c \<noteq> None \<Longrightarrow> \<exists>b'. bfs nxt queue = Some b'"
proof (induction nxt queue rule: bfs.induct)
  case (1 nxt)
  then show ?case by simp
next
  case (2 nxt r c queue)
  from "2.prems"(2) obtain cell where cell: "cellAt nxt r c = Some cell" by auto
  then have ne: "nxt \<noteq> []" by (auto simp: cellAt_Some)
  show ?case
  proof (cases "adjacentMines cell = 0 \<and> \<not> isMine cell")
    case True
    from ne obtain ns where ns: "neighbors nxt r c = Some ns"
      using neighbors_total by blast
    have inb: "\<forall>(r', c') \<in> set ns. cellAt nxt r' c' \<noteq> None"
      using neighbors_in_bounds [OF "2.prems"(1) ns] by auto
    from revealNeighbors_total [OF inb, of queue] obtain nxt' queue' where
      rn: "revealNeighbors nxt queue ns = Some (nxt', queue')" and
      sub: "set queue' \<subseteq> set queue \<union> set ns"
      by blast
    have shape: "map length nxt' = map length nxt"
      using revealNeighbors_step [OF rn] by (rule boardRel_shape)
    have rect: "rectangular nxt'"
      using "2.prems"(1) rectangular_shape [OF shape] by simp
    have q: "\<forall>(r', c') \<in> set queue'. cellAt nxt' r' c' \<noteq> None"
      using sub inb "2.prems"(2) cellAt_shape [OF shape] by auto
    from "2.IH"(1) [OF cell True ns rn refl rect q] obtain b' where "bfs nxt' queue' = Some b'"
      by blast
    with cell True ns rn show ?thesis by simp
  next
    case False
    from "2.prems" have "\<forall>(r', c') \<in> set queue. cellAt nxt r' c' \<noteq> None" by simp
    from "2.IH"(2) [OF cell False "2.prems"(1) this] cell False show ?thesis by auto
  qed
qed

lemma revealCell_total:
  assumes "rectangular b" and "cellAt b r c \<noteq> None"
  shows "\<exists>b'. revealCell b r c = Some b'"
proof -
  from assms(2) obtain cell where cell: "cellAt b r c = Some cell" by auto
  have shape: "map length (setRevealed b r c) = map length b" by (rule setRevealed_shape)
  have "rectangular (setRevealed b r c)"
    using assms(1) rectangular_shape [OF shape] by simp
  moreover have "\<forall>(r', c') \<in> set [(r, c)]. cellAt (setRevealed b r c) r' c' \<noteq> None"
    using assms(2) cellAt_shape [OF shape] by simp
  ultimately obtain b' where "bfs (setRevealed b r c) [(r, c)] = Some b'"
    using bfs_total by blast
  with cell show ?thesis by (simp add: revealCell_def)
qed

section \<open>The frame of a reveal (claim C10)\<close>

lemma cellStep_isMine: "cellStep x y \<Longrightarrow> isMine y = isMine x"
  by (auto simp: cellStep_def)

lemma cellStep_isFlagged: "cellStep x y \<Longrightarrow> isFlagged y = isFlagged x"
  by (auto simp: cellStep_def)

lemma cellStep_adjacentMines: "cellStep x y \<Longrightarrow> adjacentMines y = adjacentMines x"
  by (auto simp: cellStep_def)

text \<open>
  Claim C10. Whenever \<open>revealCell\<close> returns a board, that board has the rows and row
  lengths of the input and every cell keeps its \<open>isMine\<close>, \<open>isFlagged\<close> and
  \<open>adjacentMines\<close>; and on a rectangular board with an in-bounds coordinate it does
  return a board.
\<close>

theorem revealCell_frame:
  "(revealCell b r c = Some b' \<longrightarrow>
      map length b' = map length b \<and>
      map (map isMine) b' = map (map isMine) b \<and>
      map (map isFlagged) b' = map (map isFlagged) b \<and>
      map (map adjacentMines) b' = map (map adjacentMines) b) \<and>
   (rectangular b \<and> cellAt b r c \<noteq> None \<longrightarrow> (\<exists>b''. revealCell b r c = Some b''))"
proof (intro conjI impI)
  assume "revealCell b r c = Some b'"
  then have step: "boardRel cellStep b b'" by (rule revealCell_step)
  from step show "map length b' = map length b" by (rule boardRel_shape)
  from step show "map (map isMine) b' = map (map isMine) b"
    by (rule boardRel_field) (rule cellStep_isMine)
  from step show "map (map isFlagged) b' = map (map isFlagged) b"
    by (rule boardRel_field) (rule cellStep_isFlagged)
  from step show "map (map adjacentMines) b' = map (map adjacentMines) b"
    by (rule boardRel_field) (rule cellStep_adjacentMines)
next
  assume "rectangular b \<and> cellAt b r c \<noteq> None"
  then show "\<exists>b''. revealCell b r c = Some b''"
    by (intro revealCell_total) simp_all
qed

definition flagRow :: Board where
  "flagRow = [[makeCell, makeCell\<lparr>isFlagged := True\<rparr>, makeCell]]"

lemma revealCell_flagRow:
  "revealCell flagRow 0 0 = Some [[makeCell\<lparr>isRevealed := True\<rparr>, makeCell\<lparr>isFlagged := True\<rparr>, makeCell]]"
  by (simp add: flagRow_def revealCell_def cellAt_def setRevealed_def makeCell_def
        neighbors_def neighborLoop_def)

theorem revealCell_frame_witness:
  "rectangular flagRow \<and> cellAt flagRow 0 0 \<noteq> None \<and>
   revealCell flagRow 0 0 =
     Some [[makeCell\<lparr>isRevealed := True\<rparr>, makeCell\<lparr>isFlagged := True\<rparr>, makeCell]] \<and>
   map (map isFlagged) [[makeCell\<lparr>isRevealed := True\<rparr>, makeCell\<lparr>isFlagged := True\<rparr>, makeCell]] =
     map (map isFlagged) flagRow"
  using revealCell_frame [of flagRow 0 0
      "[[makeCell\<lparr>isRevealed := True\<rparr>, makeCell\<lparr>isFlagged := True\<rparr>, makeCell]]"]
    revealCell_flagRow
  by (simp add: rectangular_def flagRow_def cellAt_def)

section \<open>Flagging (claim C7)\<close>

lemma toggleFlag_update:
  assumes "cellAt b r c = Some cell" and "\<not> isRevealed cell"
  shows "toggleFlag b r c =
           Some (b[nat r := (b ! nat r)[nat c := cell\<lparr>isFlagged := \<not> isFlagged cell\<rparr>]])"
proof -
  from assms(1) have r: "0 \<le> r" "nat r < length b" and c: "0 \<le> c" "nat c < length (b ! nat r)"
    and cell: "cell = b ! nat r ! nat c"
    by (auto simp: cellAt_Some)
  let ?f = "\<lambda>ri ci x. if int ri = r \<and> int ci = c then x\<lparr>isFlagged := \<not> isFlagged x\<rparr> else x"
  have row: "mapi (?f i) (b ! i) =
          (b[nat r := (b ! nat r)[nat c := cell\<lparr>isFlagged := \<not> isFlagged cell\<rparr>]]) ! i"
    if "i < length b" for i
  proof (cases "i = nat r")
    case True
    with r c cell show ?thesis
      by (intro nth_equalityI) (auto simp: nth_list_update)
  next
    case False
    with r that have "mapi (?f i) (b ! i) = b ! i"
      by (intro nth_equalityI) auto
    with False that show ?thesis by simp
  qed
  have "mapi (\<lambda>ri row. mapi (?f ri) row) b =
          b[nat r := (b ! nat r)[nat c := cell\<lparr>isFlagged := \<not> isFlagged cell\<rparr>]]"
    by (rule nth_equalityI) (simp_all add: row)
  with assms show ?thesis by (simp add: toggleFlag_def)
qed

lemma cellAt_update_same:
  assumes "cellAt b r c = Some cell"
  shows "cellAt (b[nat r := (b ! nat r)[nat c := x]]) r c = Some x"
  using assms by (auto simp: cellAt_Some)

lemma boardRel_update:
  assumes "cellAt b r c = Some cell" and "R cell x" and "\<And>y. R y y"
  shows "boardRel R b (b[nat r := (b ! nat r)[nat c := x]])"
proof -
  from assms(1) have r: "nat r < length b" and c: "nat c < length (b ! nat r)"
    and cell: "cell = b ! nat r ! nat c"
    by (auto simp: cellAt_Some)
  let ?b' = "b[nat r := (b ! nat r)[nat c := x]]"
  have "length (?b' ! i) = length (b ! i) \<and> (\<forall>j < length (b ! i). R (b ! i ! j) (?b' ! i ! j))"
    if "i < length b" for i
  proof (cases "i = nat r")
    case True
    with r c cell assms(2,3) show ?thesis
      by (simp add: nth_list_update)
  next
    case False
    with that assms(3) show ?thesis by simp
  qed
  then show ?thesis by (simp add: boardRel_nth)
qed

text \<open>
  Claim C7. In status \<open>idle\<close>, the Flag move on an unrevealed in-bounds cell returns the
  state with status \<open>playing\<close>, the flag of that one cell flipped and \<open>flagCount\<close> moved by
  +1 (flag set) or -1 (flag removed); every other field and cell is as before. No mine is
  placed: \<open>isMine\<close> is unchanged everywhere, so a board without mines stays without mines.
\<close>

theorem flag_from_idle:
  assumes "status s = Idle" and "cellAt (board s) r c = Some cell" and "\<not> isRevealed cell"
  shows "reducer rnd s (FLAG r c) =
           Some (s\<lparr>board := (board s)[nat r := (board s ! nat r)
                                   [nat c := cell\<lparr>isFlagged := \<not> isFlagged cell\<rparr>]],
                   flagCount := flagCount s + (if isFlagged cell then - 1 else 1),
                   status := Playing\<rparr>) \<and>
         (\<forall>s'. reducer rnd s (FLAG r c) = Some s' \<longrightarrow>
            map (map isMine) (board s') = map (map isMine) (board s) \<and>
            (list_all (list_all (\<lambda>x. \<not> isMine x)) (board s) \<longrightarrow>
             list_all (list_all (\<lambda>x. \<not> isMine x)) (board s')))"
proof -
  let ?b' = "(board s)[nat r := (board s ! nat r)[nat c := cell\<lparr>isFlagged := \<not> isFlagged cell\<rparr>]]"
  have red: "reducer rnd s (FLAG r c) =
           Some (s\<lparr>board := ?b', flagCount := flagCount s + (if isFlagged cell then - 1 else 1),
                   status := Playing\<rparr>)"
    using assms by (simp add: toggleFlag_update cellAt_update_same)
  have rel: "boardRel (\<lambda>x y. isMine y = isMine x) (board s) ?b'"
    using assms(2) by (rule boardRel_update) simp_all
  then have mines: "map (map isMine) ?b' = map (map isMine) (board s)"
    by (rule boardRel_field)
  have "list_all (list_all (\<lambda>x. \<not> isMine x)) bb \<longleftrightarrow> list_all (list_all (\<lambda>m. \<not> m)) (map (map isMine) bb)"
    for bb :: Board
    by (simp add: list_all_iff)
  with mines have "list_all (list_all (\<lambda>x. \<not> isMine x)) (board s) \<longrightarrow>
             list_all (list_all (\<lambda>x. \<not> isMine x)) ?b'"
    by simp
  with red mines show ?thesis by simp
qed

theorem flag_from_idle_witness:
  "status (makeInitialState Beginner) = Idle \<and>
   cellAt (board (makeInitialState Beginner)) 2 3 = Some makeCell \<and>
   \<not> isRevealed makeCell \<and>
   reducer (\<lambda>i. 0) (makeInitialState Beginner) (FLAG 2 3) =
     Some ((makeInitialState Beginner)
        \<lparr>board := (board (makeInitialState Beginner))
            [nat 2 := (board (makeInitialState Beginner) ! nat 2)
               [nat 3 := makeCell\<lparr>isFlagged := \<not> isFlagged makeCell\<rparr>]],
         flagCount := flagCount (makeInitialState Beginner) + (if isFlagged makeCell then - 1 else 1),
         status := Playing\<rparr>)"
proof -
  have a: "status (makeInitialState Beginner) = Idle"
    by (simp add: makeInitialState_def)
  have b: "cellAt (board (makeInitialState Beginner)) 2 3 = Some makeCell"
    by (simp add: makeInitialState_def makeEmptyBoard_def cellAt_def)
  have c: "\<not> isRevealed makeCell"
    by (simp add: makeCell_def)
  from flag_from_idle [OF a b c, of "\<lambda>i. 0"] a b c show ?thesis by simp
qed

section \<open>Losing by a chord (claim C6)\<close>

definition revealedMine :: "CellState \<Rightarrow> bool" where
  "revealedMine cell \<longleftrightarrow> isMine cell \<and> isRevealed cell"

lemma scanRow_None: "scanRow cells k = None \<longleftrightarrow> (\<forall>cell \<in> set cells. \<not> revealedMine cell)"
  by (induction cells arbitrary: k) (auto simp: revealedMine_def)

lemma scanRow_Some:
  "scanRow cells k = Some j \<Longrightarrow>
     k \<le> j \<and> j - k < length cells \<and> revealedMine (cells ! (j - k)) \<and>
     (\<forall>j' < j - k. \<not> revealedMine (cells ! j'))"
proof (induction cells arbitrary: k)
  case Nil
  then show ?case by simp
next
  case (Cons cell cells)
  show ?case
  proof (cases "isMine cell \<and> isRevealed cell")
    case True
    with Cons.prems show ?thesis by (auto simp: revealedMine_def)
  next
    case False
    with Cons.prems have "scanRow cells (Suc k) = Some j" by auto
    from Cons.IH [OF this] have k: "Suc k \<le> j" and len: "j - Suc k < length cells"
      and hit: "revealedMine (cells ! (j - Suc k))"
      and first: "\<forall>j' < j - Suc k. \<not> revealedMine (cells ! j')"
      by simp_all
    from k have eq: "j - k = Suc (j - Suc k)" by simp
    have "\<not> revealedMine ((cell # cells) ! j')" if "j' < j - k" for j'
      using that first False eq by (cases j') (auto simp: revealedMine_def)
    with k len hit eq show ?thesis by simp
  qed
qed

lemma scanBoard_None:
  "scanBoard b k = None \<longleftrightarrow> (\<forall>row \<in> set b. \<forall>cell \<in> set row. \<not> revealedMine cell)"
proof (induction b arbitrary: k)
  case Nil
  then show ?case by simp
next
  case (Cons row rest)
  show ?case
  proof (cases "scanRow row 0")
    case None
    then have "\<forall>cell \<in> set row. \<not> revealedMine cell" by (simp add: scanRow_None)
    with None Cons.IH [of "Suc k"] show ?thesis by simp
  next
    case (Some j)
    then have "scanRow row 0 \<noteq> None" by simp
    then have "\<exists>cell \<in> set row. revealedMine cell" by (simp add: scanRow_None)
    with Some show ?thesis by auto
  qed
qed

lemma scanBoard_Some:
  "scanBoard b k = Some (i, j) \<Longrightarrow>
     k \<le> i \<and> i - k < length b \<and> j < length (b ! (i - k)) \<and> revealedMine (b ! (i - k) ! j) \<and>
     (\<forall>i' j'. i' < length b \<and> j' < length (b ! i') \<and> (i' < i - k \<or> (i' = i - k \<and> j' < j)) \<longrightarrow>
        \<not> revealedMine (b ! i' ! j'))"
proof (induction b arbitrary: k)
  case Nil
  then show ?case by simp
next
  case (Cons row rest)
  show ?case
  proof (cases "scanRow row 0")
    case (Some j0)
    with Cons.prems have ij: "i = k" "j = j0" by simp_all
    from scanRow_Some [OF Some] ij show ?thesis by auto
  next
    case None
    with Cons.prems have rec: "scanBoard rest (Suc k) = Some (i, j)" by simp
    from None have row: "\<forall>cell \<in> set row. \<not> revealedMine cell" by (simp add: scanRow_None)
    from Cons.IH [OF rec] have k: "Suc k \<le> i" and len: "i - Suc k < length rest"
      and j: "j < length (rest ! (i - Suc k))" and hit: "revealedMine (rest ! (i - Suc k) ! j)"
      and first: "\<forall>i' j'. i' < length rest \<and> j' < length (rest ! i') \<and>
                    (i' < i - Suc k \<or> (i' = i - Suc k \<and> j' < j)) \<longrightarrow> \<not> revealedMine (rest ! i' ! j')"
      by simp_all
    from k have eq: "i - k = Suc (i - Suc k)" by simp
    have "\<not> revealedMine ((row # rest) ! i' ! j')"
      if "i' < length (row # rest)" "j' < length ((row # rest) ! i')"
         "i' < i - k \<or> (i' = i - k \<and> j' < j)" for i' j'
    proof (cases i')
      case 0
      with that(2) row show ?thesis by simp
    next
      case (Suc n)
      with that eq have "n < length rest" "j' < length (rest ! n)"
        "n < i - Suc k \<or> (n = i - Suc k \<and> j' < j)" by auto
      with first Suc show ?thesis by simp
    qed
    with k len j hit eq show ?thesis by simp
  qed
qed

lemma revealAllMines_all:
  "\<forall>row \<in> set (revealAllMines b). \<forall>cell \<in> set row. isMine cell \<longrightarrow> isRevealed cell"
  by (auto simp: revealAllMines_def)

text \<open>
  Claim C6, as amended. In status \<open>playing\<close>, when \<open>chordReveal\<close> returns a board on
  which some mine is revealed, the Chord move returns the state with status \<open>lost\<close>, the
  board after \<open>revealAllMines\<close>, on which every mine is revealed, and \<open>losingCell\<close> the
  first cell, in row-major order, that is a revealed mine on the board \<open>chordReveal\<close>
  returned, before the other mines are revealed: the scan passes over the mines that are
  still hidden.
\<close>

theorem chord_loss:
  assumes "status s = Playing" and "chordReveal (board s) r c = Some b'"
    and "\<exists>row \<in> set b'. \<exists>cell \<in> set row. isMine cell \<and> isRevealed cell"
  shows "\<exists>i j. reducer rnd s (CHORD r c) =
                  Some (s\<lparr>board := revealAllMines b', status := Lost,
                          losingCell := Some (int i, int j)\<rparr>) \<and>
               i < length b' \<and> j < length (b' ! i) \<and>
               isMine (b' ! i ! j) \<and> isRevealed (b' ! i ! j) \<and>
               (\<forall>i' j'. i' < length b' \<and> j' < length (b' ! i') \<and> (i' < i \<or> (i' = i \<and> j' < j)) \<longrightarrow>
                  \<not> (isMine (b' ! i' ! j') \<and> isRevealed (b' ! i' ! j'))) \<and>
               (\<forall>row \<in> set (revealAllMines b'). \<forall>cell \<in> set row. isMine cell \<longrightarrow> isRevealed cell)"
proof -
  from assms(3) have "scanBoard b' 0 \<noteq> None"
    by (simp add: scanBoard_None revealedMine_def)
  then obtain i j where scan: "scanBoard b' 0 = Some (i, j)" by auto
  with assms(1,2) have "reducer rnd s (CHORD r c) =
      Some (s\<lparr>board := revealAllMines b', status := Lost, losingCell := Some (int i, int j)\<rparr>)"
    by simp
  with scanBoard_Some [OF scan] revealAllMines_all [of b'] show ?thesis
    unfolding revealedMine_def by (intro exI [of _ i] exI [of _ j]) simp
qed

definition chordState :: GameState where
  "chordState =
     \<lparr>board = [[makeCell\<lparr>isMine := True\<rparr>,
                makeCell\<lparr>isRevealed := True, adjacentMines := 1\<rparr>,
                makeCell\<lparr>isFlagged := True\<rparr>]],
      status = Playing, difficulty = Beginner, flagCount = 1, elapsed = 3,
      startTime = None, losingCell = None\<rparr>"

definition chordBoard :: Board where
  "chordBoard = [[makeCell\<lparr>isMine := True, isRevealed := True\<rparr>,
                 makeCell\<lparr>isRevealed := True, adjacentMines := 1\<rparr>,
                 makeCell\<lparr>isFlagged := True\<rparr>]]"

lemma chordReveal_chordState: "chordReveal (board chordState) 0 1 = Some chordBoard"
  by (simp add: chordState_def chordBoard_def chordReveal_def revealCell_def cellAt_def
        setRevealed_def makeCell_def neighbors_def neighborLoop_def countFlagged_def)

section \<open>Frames of the generator and of the other engine operations\<close>

lemma those_map_Some: "those (map Some ys) = Some ys"
  by (induction ys) simp_all

lemma those_Some_map: "those xs = Some ys \<Longrightarrow> xs = map Some ys"
proof (induction xs arbitrary: ys)
  case Nil
  then show ?case by simp
next
  case (Cons x xs)
  from Cons.prems obtain y zs where x: "x = Some y" and zs: "those xs = Some zs" and ys: "ys = y # zs"
    by (auto split: option.splits)
  from Cons.IH [OF zs] x ys show ?case by simp
qed

lemma those_eq_Some: "those xs = Some ys \<longleftrightarrow> xs = map Some ys"
  using those_map_Some those_Some_map by blast

lemma those_mapi_nth:
  assumes "those (mapi f xs) = Some ys"
  shows "length ys = length xs \<and> (\<forall>i < length xs. f i (xs ! i) = Some (ys ! i))"
proof -
  from assms have eq: "mapi f xs = map Some ys" by (simp add: those_eq_Some)
  then have len: "length ys = length xs"
    by (metis length_map length_mapi)
  have "f i (xs ! i) = Some (ys ! i)" if "i < length xs" for i
  proof -
    from that have "mapi f xs ! i = f i (xs ! i)" by simp
    moreover from that len have "map Some ys ! i = Some (ys ! i)" by simp
    ultimately show ?thesis using eq by simp
  qed
  with len show ?thesis by simp
qed

lemma adjacentCell_Some:
  "adjacentCell b i j x = Some y \<Longrightarrow> \<exists>n. y = x\<lparr>adjacentMines := n\<rparr>"
  by (auto simp: adjacentCell_def split: if_splits option.splits)

lemma computeAdjacent_nth:
  assumes "computeAdjacent b = Some b'"
  shows "length b' = length b \<and>
         (\<forall>i < length b. length (b' ! i) = length (b ! i) \<and>
            (\<forall>j < length (b ! i). adjacentCell b i j (b ! i ! j) = Some (b' ! i ! j)))"
proof -
  from assms have rows: "length b' = length b"
    "\<forall>i < length b. those (mapi (adjacentCell b i) (b ! i)) = Some (b' ! i)"
    using those_mapi_nth [of "\<lambda>r row. those (mapi (adjacentCell b r) row)" b b']
    by (simp_all add: computeAdjacent_def)
  have "length (b' ! i) = length (b ! i) \<and>
            (\<forall>j < length (b ! i). adjacentCell b i j (b ! i ! j) = Some (b' ! i ! j))"
    if "i < length b" for i
    using rows(2) that those_mapi_nth [of "adjacentCell b i" "b ! i" "b' ! i"] by simp
  with rows(1) show ?thesis by simp
qed

definition sameButMine :: "CellState \<Rightarrow> CellState \<Rightarrow> bool" where
  "sameButMine x y \<longleftrightarrow> (\<exists>m. y = x\<lparr>isMine := m\<rparr>)"

definition sameButCount :: "CellState \<Rightarrow> CellState \<Rightarrow> bool" where
  "sameButCount x y \<longleftrightarrow> (\<exists>n. y = x\<lparr>adjacentMines := n\<rparr>)"

lemma placeMines_frame: "placeMines rnd b m r c = Some b' \<Longrightarrow> boardRel sameButMine b b'"
  by (auto simp: placeMines_def Let_def sameButMine_def split: list.splits option.splits
           intro!: boardRel_mapi)

lemma computeAdjacent_frame: "computeAdjacent b = Some b' \<Longrightarrow> boardRel sameButCount b b'"
  using computeAdjacent_nth [of b b']
  by (auto simp: boardRel_nth sameButCount_def dest: adjacentCell_Some)

definition flagStep :: "CellState \<Rightarrow> CellState \<Rightarrow> bool" where
  "flagStep x y \<longleftrightarrow> y = x \<or> (\<not> isRevealed x \<and> y = x\<lparr>isFlagged := \<not> isFlagged x\<rparr>)"

lemma toggleFlag_frame: "toggleFlag b r c = Some b' \<Longrightarrow> boardRel flagStep b b'"
proof -
  assume tf: "toggleFlag b r c = Some b'"
  then obtain cell where cell: "cellAt b r c = Some cell"
    by (auto simp: toggleFlag_def split: option.splits)
  show ?thesis
  proof (cases "isRevealed cell")
    case True
    with tf cell show ?thesis
      by (simp add: toggleFlag_def boardRel_refl flagStep_def)
  next
    case False
    with tf cell have "b' = b[nat r := (b ! nat r)[nat c := cell\<lparr>isFlagged := \<not> isFlagged cell\<rparr>]]"
      by (simp add: toggleFlag_update)
    with cell False show ?thesis
      by (auto intro!: boardRel_update simp: flagStep_def)
  qed
qed

definition mineStep :: "CellState \<Rightarrow> CellState \<Rightarrow> bool" where
  "mineStep x y \<longleftrightarrow> y = (if isMine x then x\<lparr>isRevealed := True\<rparr> else x)"

lemma revealAllMines_frame: "boardRel mineStep b (revealAllMines b)"
  unfolding revealAllMines_def by (rule boardRel_map) (simp add: mineStep_def)

lemma boardRel_list_all:
  assumes "boardRel R b b'" and "\<And>x y. R x y \<Longrightarrow> P x \<Longrightarrow> Q y" and "list_all (list_all P) b"
  shows "list_all (list_all Q) b'"
proof -
  have "Q (b' ! i ! j)" if "i < length b'" "j < length (b' ! i)" for i j
  proof -
    from that assms(1) have ij: "i < length b" "j < length (b ! i)" and "R (b ! i ! j) (b' ! i ! j)"
      by (simp_all add: boardRel_nth)
    moreover from ij assms(3) have "P (b ! i ! j)" by (simp add: list_all_length)
    ultimately show ?thesis by (auto intro: assms(2))
  qed
  then show ?thesis by (simp add: list_all_length)
qed

section \<open>Revealed cells stay revealed; revealed cells carry no flag (claim C3)\<close>

definition revealedKept :: "Board \<Rightarrow> Board \<Rightarrow> bool" where
  "revealedKept b b' = boardRel (\<lambda>x y. isRevealed x \<longrightarrow> isRevealed y) b b'"

definition noRevealedFlag :: "Board \<Rightarrow> bool" where
  "noRevealedFlag b = list_all (list_all (\<lambda>x. \<not> (isRevealed x \<and> isFlagged x))) b"

definition noFlaggedMine :: "Board \<Rightarrow> bool" where
  "noFlaggedMine b = list_all (list_all (\<lambda>x. isMine x \<longrightarrow> \<not> isFlagged x)) b"

text \<open>
  \<open>keeps\<close>: the step from a cell to its successor neither hides the cell nor makes it
  revealed and flagged. \<open>revealOnly\<close>: the step keeps the flag and does not hide the cell.
\<close>

definition keeps :: "CellState \<Rightarrow> CellState \<Rightarrow> bool" where
  "keeps x y \<longleftrightarrow>
     (isRevealed x \<longrightarrow> isRevealed y) \<and>
     (\<not> (isRevealed x \<and> isFlagged x) \<longrightarrow> \<not> (isRevealed y \<and> isFlagged y))"

definition revealOnly :: "CellState \<Rightarrow> CellState \<Rightarrow> bool" where
  "revealOnly x y \<longleftrightarrow> isFlagged y = isFlagged x \<and> (isRevealed x \<longrightarrow> isRevealed y)"

lemma keeps_refl: "keeps x x"
  by (simp add: keeps_def)

lemma keeps_trans: "keeps x y \<Longrightarrow> keeps y z \<Longrightarrow> keeps x z"
  by (auto simp: keeps_def)

lemma revealOnly_refl: "revealOnly x x"
  by (simp add: revealOnly_def)

lemma revealOnly_trans: "revealOnly x y \<Longrightarrow> revealOnly y z \<Longrightarrow> revealOnly x z"
  by (auto simp: revealOnly_def)

lemma sameButMine_keeps: "sameButMine x y \<Longrightarrow> keeps x y \<and> revealOnly x y"
  by (auto simp: sameButMine_def keeps_def revealOnly_def)

lemma sameButCount_keeps: "sameButCount x y \<Longrightarrow> keeps x y \<and> revealOnly x y"
  by (auto simp: sameButCount_def keeps_def revealOnly_def)

lemma cellStep_keeps: "cellStep x y \<Longrightarrow> keeps x y \<and> revealOnly x y"
  by (auto simp: cellStep_def keeps_def revealOnly_def)

lemma flagStep_keeps: "flagStep x y \<Longrightarrow> keeps x y"
  by (auto simp: flagStep_def keeps_def)

lemma mineStep_revealOnly: "mineStep x y \<Longrightarrow> revealOnly x y"
  by (auto simp: mineStep_def revealOnly_def)

lemma keeps_boards:
  assumes "boardRel keeps b b'"
  shows "revealedKept b b' \<and> (noRevealedFlag b \<longrightarrow> noRevealedFlag b')"
proof
  from assms show "revealedKept b b'"
    unfolding revealedKept_def by (rule boardRel_mono) (simp add: keeps_def)
  show "noRevealedFlag b \<longrightarrow> noRevealedFlag b'"
    unfolding noRevealedFlag_def
    by (rule impI, rule boardRel_list_all [OF assms]) (auto simp: keeps_def)
qed

lemma revealOnly_boards: "boardRel revealOnly b b' \<Longrightarrow> revealedKept b b'"
  unfolding revealedKept_def by (erule boardRel_mono) (simp add: revealOnly_def)

lemma placeMines_keeps:
  "placeMines rnd b m r c = Some b' \<Longrightarrow> boardRel keeps b b' \<and> boardRel revealOnly b b'"
  by (auto dest!: placeMines_frame elim: boardRel_mono simp: sameButMine_keeps)

lemma computeAdjacent_keeps:
  "computeAdjacent b = Some b' \<Longrightarrow> boardRel keeps b b' \<and> boardRel revealOnly b b'"
  by (auto dest!: computeAdjacent_frame elim: boardRel_mono simp: sameButCount_keeps)

lemma revealCell_keeps:
  "revealCell b r c = Some b' \<Longrightarrow> boardRel keeps b b' \<and> boardRel revealOnly b b'"
  by (auto dest!: revealCell_step elim: boardRel_mono simp: cellStep_keeps)

lemma chordReveal_keeps:
  "chordReveal b r c = Some b' \<Longrightarrow> boardRel keeps b b' \<and> boardRel revealOnly b b'"
  by (auto dest!: chordReveal_step elim: boardRel_mono simp: cellStep_keeps)

lemma toggleFlag_keeps: "toggleFlag b r c = Some b' \<Longrightarrow> boardRel keeps b b'"
  by (auto dest!: toggleFlag_frame elim: boardRel_mono simp: flagStep_keeps)

lemma revealAllMines_revealOnly: "boardRel revealOnly b (revealAllMines b)"
  using revealAllMines_frame [of b] by (rule boardRel_mono) (rule mineStep_revealOnly)

lemma revealAllMines_noRevealedFlag:
  assumes "noFlaggedMine b" and "noRevealedFlag b"
  shows "noRevealedFlag (revealAllMines b)"
proof -
  from assms have "list_all (list_all (\<lambda>x. (isMine x \<longrightarrow> \<not> isFlagged x) \<and>
                      \<not> (isRevealed x \<and> isFlagged x))) b"
    by (auto simp: noFlaggedMine_def noRevealedFlag_def list_all_iff)
  then show ?thesis
    unfolding noRevealedFlag_def
    by (rule boardRel_list_all [OF revealAllMines_frame, rotated]) (auto simp: mineStep_def)
qed

lemma firstClick_keeps:
  assumes "firstClick rnd s r c = Some (b0, st)"
  shows "boardRel keeps (board s) b0 \<and> boardRel revealOnly (board s) b0 \<and>
         (st = Playing \<or> st = status s)"
proof (cases "status s = Idle")
  case True
  with assms obtain b1 where pm: "placeMines rnd (board s) (mines (DIFFICULTIES (difficulty s))) r c = Some b1"
    and ca: "computeAdjacent b1 = Some b0" and st: "st = Playing"
    by (auto simp: firstClick_def split: option.splits)
  from placeMines_keeps [OF pm] computeAdjacent_keeps [OF ca] st show ?thesis
    by (meson boardRel_trans keeps_trans revealOnly_trans)
next
  case False
  with assms show ?thesis
    by (simp add: firstClick_def boardRel_refl keeps_refl revealOnly_refl)
qed

lemma reveal_move_cases:
  assumes "reducer rnd s (REVEAL r c) = Some s'"
  shows "s' = s \<or>
         (\<exists>b0 st b. firstClick rnd s r c = Some (b0, st) \<and> revealCell b0 r c = Some b \<and>
            status s \<noteq> Lost \<and> status s \<noteq> Won \<and>
            (s' = s\<lparr>board := revealAllMines b, status := Lost, losingCell := Some (r, c)\<rparr> \<or>
             s' = s\<lparr>board := b, status := Won\<rparr> \<or>
             s' = s\<lparr>board := b, status := st\<rparr>))"
  using assms by (auto split: if_splits option.splits)

lemma chord_move_cases:
  assumes "reducer rnd s (CHORD r c) = Some s'"
  shows "s' = s \<or>
         (\<exists>b. chordReveal (board s) r c = Some b \<and> status s = Playing \<and>
            ((\<exists>i j. s' = s\<lparr>board := revealAllMines b, status := Lost,
                           losingCell := Some (int i, int j)\<rparr>) \<or>
             s' = s\<lparr>board := b, status := Won\<rparr> \<or>
             s' = s\<lparr>board := b\<rparr>))"
  using assms by (auto split: if_splits option.splits)

lemma flag_move_cases:
  assumes "reducer rnd s (FLAG r c) = Some s'"
  shows "s' = s \<or>
         (\<exists>cell. cellAt (board s) r c = Some cell \<and> \<not> isRevealed cell \<and>
            status s \<noteq> Lost \<and> status s \<noteq> Won \<and>
            s' = s\<lparr>board := (board s)[nat r := (board s ! nat r)
                                   [nat c := cell\<lparr>isFlagged := \<not> isFlagged cell\<rparr>]],
                   flagCount := flagCount s + (if isFlagged cell then - 1 else 1),
                   status := (if status s = Idle then Playing else status s)\<rparr>)"
proof (cases "status s = Won \<or> status s = Lost")
  case True
  with assms show ?thesis by auto
next
  case False
  with assms obtain cell where cell: "cellAt (board s) r c = Some cell"
    by (auto split: option.splits)
  show ?thesis
  proof (cases "isRevealed cell")
    case True
    with assms False cell show ?thesis by auto
  next
    case unrev: False
    with assms False cell show ?thesis
      by (auto simp: toggleFlag_update cellAt_update_same)
  qed
qed

lemma reveal_move_boards:
  assumes "reducer rnd s (REVEAL r c) = Some s'"
  shows "boardRel revealOnly (board s) (board s') \<and> flagCount s' = flagCount s \<and>
         ((status s' = Lost \<longrightarrow> status s = Lost) \<longrightarrow> boardRel keeps (board s) (board s'))"
proof -
  from reveal_move_cases [OF assms] consider "s' = s"
    | b0 st b where "firstClick rnd s r c = Some (b0, st)" "revealCell b0 r c = Some b"
        "status s \<noteq> Lost" "status s \<noteq> Won"
        "s' = s\<lparr>board := revealAllMines b, status := Lost, losingCell := Some (r, c)\<rparr> \<or>
         s' = s\<lparr>board := b, status := Won\<rparr> \<or> s' = s\<lparr>board := b, status := st\<rparr>"
    by blast
  then show ?thesis
  proof cases
    case 1
    then show ?thesis by (simp add: boardRel_refl revealOnly_refl keeps_refl)
  next
    case 2
    from firstClick_keeps [OF 2(1)] revealCell_keeps [OF 2(2)]
    have k: "boardRel keeps (board s) b" and ro: "boardRel revealOnly (board s) b"
      and st: "st = Playing \<or> st = status s"
      by (meson boardRel_trans keeps_trans revealOnly_trans)+
    from ro revealAllMines_revealOnly [of b]
    have ro': "boardRel revealOnly (board s) (revealAllMines b)"
      by (meson boardRel_trans revealOnly_trans)
    from 2(5) show ?thesis
    proof (elim disjE)
      assume "s' = s\<lparr>board := revealAllMines b, status := Lost, losingCell := Some (r, c)\<rparr>"
      with ro' 2(3) show ?thesis by simp
    next
      assume "s' = s\<lparr>board := b, status := Won\<rparr>"
      with ro k show ?thesis by simp
    next
      assume "s' = s\<lparr>board := b, status := st\<rparr>"
      with ro k show ?thesis by simp
    qed
  qed
qed

lemma chord_move_boards:
  assumes "reducer rnd s (CHORD r c) = Some s'"
  shows "boardRel revealOnly (board s) (board s') \<and> flagCount s' = flagCount s \<and>
         ((status s' = Lost \<longrightarrow> status s = Lost) \<longrightarrow> boardRel keeps (board s) (board s'))"
proof -
  from chord_move_cases [OF assms] consider "s' = s"
    | b where "chordReveal (board s) r c = Some b" "status s = Playing"
        "(\<exists>i j. s' = s\<lparr>board := revealAllMines b, status := Lost,
                        losingCell := Some (int i, int j)\<rparr>) \<or>
         s' = s\<lparr>board := b, status := Won\<rparr> \<or> s' = s\<lparr>board := b\<rparr>"
    by blast
  then show ?thesis
  proof cases
    case 1
    then show ?thesis by (simp add: boardRel_refl revealOnly_refl keeps_refl)
  next
    case 2
    from chordReveal_keeps [OF 2(1)]
    have k: "boardRel keeps (board s) b" and ro: "boardRel revealOnly (board s) b"
      by simp_all
    from ro revealAllMines_revealOnly [of b]
    have ro': "boardRel revealOnly (board s) (revealAllMines b)"
      by (meson boardRel_trans revealOnly_trans)
    from 2(3) show ?thesis
    proof (elim disjE exE)
      fix i j
      assume "s' = s\<lparr>board := revealAllMines b, status := Lost, losingCell := Some (int i, int j)\<rparr>"
      with ro' 2(2) show ?thesis by simp
    next
      assume "s' = s\<lparr>board := b, status := Won\<rparr>"
      with ro k show ?thesis by simp
    next
      assume "s' = s\<lparr>board := b\<rparr>"
      with ro k show ?thesis by simp
    qed
  qed
qed

lemma flag_move_boards:
  assumes "reducer rnd s (FLAG r c) = Some s'"
  shows "boardRel keeps (board s) (board s')"
proof -
  from flag_move_cases [OF assms] consider "s' = s"
    | cell where "cellAt (board s) r c = Some cell" "\<not> isRevealed cell"
        "board s' = (board s)[nat r := (board s ! nat r)
                                   [nat c := cell\<lparr>isFlagged := \<not> isFlagged cell\<rparr>]]"
    by auto
  then show ?thesis
  proof cases
    case 1
    then show ?thesis by (simp add: boardRel_refl keeps_refl)
  next
    case 2
    from 2(1,2) have "toggleFlag (board s) r c = Some (board s')"
      by (simp add: toggleFlag_update 2(3))
    then show ?thesis by (rule toggleFlag_keeps)
  qed
qed

lemma makeEmptyBoard_cells: "list_all (list_all (\<lambda>x. x = makeCell)) (makeEmptyBoard n m)"
  by (simp add: makeEmptyBoard_def list_all_iff)

lemma makeInitialState_noRevealedFlag: "noRevealedFlag (board (makeInitialState d))"
proof -
  have "list_all (list_all (\<lambda>x. x = makeCell)) (board (makeInitialState d))"
    by (simp add: makeInitialState_def makeEmptyBoard_cells)
  then have "list_all (list_all (\<lambda>x. \<not> (isRevealed x \<and> isFlagged x))) (board (makeInitialState d))"
    by (rule boardRel_list_all [where R = "(=)", OF boardRel_refl, rotated 2])
       (simp_all add: makeCell_def)
  then show ?thesis by (simp add: noRevealedFlag_def)
qed

definition freshBoard :: "Board \<Rightarrow> bool" where
  "freshBoard b = list_all (list_all (\<lambda>x. \<not> isRevealed x \<and> \<not> isFlagged x)) b"

definition sameMineFlag :: "CellState \<Rightarrow> CellState \<Rightarrow> bool" where
  "sameMineFlag x y \<longleftrightarrow> isMine y = isMine x \<and> isFlagged y = isFlagged x"

lemma sameMineFlag_refl: "sameMineFlag x x"
  by (simp add: sameMineFlag_def)

lemma sameMineFlag_trans: "sameMineFlag x y \<Longrightarrow> sameMineFlag y z \<Longrightarrow> sameMineFlag x z"
  by (simp add: sameMineFlag_def)

lemma cellStep_sameMineFlag: "cellStep x y \<Longrightarrow> sameMineFlag x y"
  by (auto simp: cellStep_def sameMineFlag_def)

lemma mineStep_sameMineFlag: "mineStep x y \<Longrightarrow> sameMineFlag x y"
  by (auto simp: mineStep_def sameMineFlag_def)

lemma boardRel_list_all_back:
  assumes "boardRel R b b'" and "\<And>x y. R x y \<Longrightarrow> Q y \<Longrightarrow> P x" and "list_all (list_all Q) b'"
  shows "list_all (list_all P) b"
proof -
  have "P (b ! i ! j)" if "i < length b" "j < length (b ! i)" for i j
  proof -
    from that assms(1) have ij: "i < length b'" "j < length (b' ! i)" and "R (b ! i ! j) (b' ! i ! j)"
      by (simp_all add: boardRel_nth)
    moreover from ij assms(3) have "Q (b' ! i ! j)" by (simp add: list_all_length)
    ultimately show ?thesis by (auto intro: assms(2))
  qed
  then show ?thesis by (simp add: list_all_length)
qed

lemma sameMineFlag_noFlaggedMine:
  assumes "boardRel sameMineFlag b b'"
  shows "noFlaggedMine b' = noFlaggedMine b"
proof
  assume "noFlaggedMine b'"
  then show "noFlaggedMine b"
    unfolding noFlaggedMine_def
    by (rule boardRel_list_all_back [OF assms, rotated]) (simp add: sameMineFlag_def)
next
  assume "noFlaggedMine b"
  then show "noFlaggedMine b'"
    unfolding noFlaggedMine_def
    by (rule boardRel_list_all [OF assms, rotated]) (simp add: sameMineFlag_def)
qed

lemma revealAllMines_sameMineFlag: "boardRel sameMineFlag b (revealAllMines b)"
  using revealAllMines_frame [of b] by (rule boardRel_mono) (rule mineStep_sameMineFlag)

lemma revealAllMines_flagged:
  assumes "noRevealedFlag (revealAllMines b)"
  shows "noFlaggedMine b"
  using assms unfolding noRevealedFlag_def noFlaggedMine_def
  by (rule boardRel_list_all_back [OF revealAllMines_frame, rotated]) (auto simp: mineStep_def)

lemma revealAllMines_invariant:
  "noRevealedFlag b \<Longrightarrow> noRevealedFlag (revealAllMines b) = noFlaggedMine b"
  using revealAllMines_flagged revealAllMines_noRevealedFlag by blast

text \<open>A move that newly ends in status \<open>lost\<close> returns the board after \<open>revealAllMines\<close>.\<close>

lemma newly_lost_board:
  assumes "reducer rnd s (REVEAL r c) = Some s' \<or> reducer rnd s (FLAG r c) = Some s' \<or>
           reducer rnd s (CHORD r c) = Some s' \<or> reducer rnd s TICK = Some s'"
    and "status s' = Lost" and "status s \<noteq> Lost"
  shows "\<exists>b0. boardRel keeps (board s) b0 \<and> board s' = revealAllMines b0"
  using assms(1)
proof (elim disjE)
  assume "reducer rnd s (REVEAL r c) = Some s'"
  from reveal_move_cases [OF this] assms(2,3) obtain b0 st b where
    fc: "firstClick rnd s r c = Some (b0, st)" and rc: "revealCell b0 r c = Some b"
    and s': "s' = s\<lparr>board := revealAllMines b, status := Lost, losingCell := Some (r, c)\<rparr> \<or>
             s' = s\<lparr>board := b, status := Won\<rparr> \<or> s' = s\<lparr>board := b, status := st\<rparr>"
    by auto
  from firstClick_keeps [OF fc] revealCell_keeps [OF rc]
  have k: "boardRel keeps (board s) b" and st: "st = Playing \<or> st = status s"
    by (meson boardRel_trans keeps_trans)+
  from s' st assms(2,3) have "board s' = revealAllMines b" by auto
  with k show ?thesis by blast
next
  assume "reducer rnd s (FLAG r c) = Some s'"
  from flag_move_cases [OF this] assms(2,3) show ?thesis by (auto split: if_splits)
next
  assume "reducer rnd s (CHORD r c) = Some s'"
  from chord_move_cases [OF this] assms(2,3) obtain b where
    cr: "chordReveal (board s) r c = Some b"
    and s': "(\<exists>i j. s' = s\<lparr>board := revealAllMines b, status := Lost,
                          losingCell := Some (int i, int j)\<rparr>) \<or>
             s' = s\<lparr>board := b, status := Won\<rparr> \<or> s' = s\<lparr>board := b\<rparr>"
    by auto
  from s' assms(2,3) have "board s' = revealAllMines b" by auto
  with chordReveal_keeps [OF cr] show ?thesis by blast
next
  assume "reducer rnd s TICK = Some s'"
  with assms(2,3) show ?thesis by (auto split: if_splits)
qed

lemma newly_lost_invariant:
  assumes "reducer rnd s (REVEAL r c) = Some s' \<or> reducer rnd s (FLAG r c) = Some s' \<or>
           reducer rnd s (CHORD r c) = Some s' \<or> reducer rnd s TICK = Some s'"
    and "status s' = Lost" and "status s \<noteq> Lost" and "noRevealedFlag (board s)"
  shows "noRevealedFlag (board s') = noFlaggedMine (board s')"
proof -
  from newly_lost_board [OF assms(1,2,3)] obtain b0 where
    k: "boardRel keeps (board s) b0" and b: "board s' = revealAllMines b0"
    by blast
  from keeps_boards [OF k] assms(4) have "noRevealedFlag b0" by simp
  then have "noRevealedFlag (revealAllMines b0) = noFlaggedMine b0"
    by (rule revealAllMines_invariant)
  also have "noFlaggedMine b0 = noFlaggedMine (revealAllMines b0)"
    by (rule sameMineFlag_noFlaggedMine [OF revealAllMines_sameMineFlag, symmetric])
  finally show ?thesis by (simp add: b)
qed

text \<open>In status \<open>playing\<close>, Reveal and Chord change neither mines nor flags.\<close>

lemma playing_move_frame:
  assumes "status s = Playing"
    and "reducer rnd s (REVEAL r c) = Some s' \<or> reducer rnd s (CHORD r c) = Some s'"
  shows "boardRel sameMineFlag (board s) (board s')"
  using assms(2)
proof (elim disjE)
  assume "reducer rnd s (REVEAL r c) = Some s'"
  from reveal_move_cases [OF this] consider "s' = s"
    | b0 st b where "firstClick rnd s r c = Some (b0, st)" "revealCell b0 r c = Some b"
        "board s' = revealAllMines b \<or> board s' = b"
    by auto
  then show ?thesis
  proof cases
    case 1
    then show ?thesis by (simp add: boardRel_refl sameMineFlag_refl)
  next
    case 2
    from 2(1) assms(1) have "b0 = board s" by (simp add: firstClick_def)
    with revealCell_step [OF 2(2)] have b: "boardRel sameMineFlag (board s) b"
      by (auto elim: boardRel_mono simp: cellStep_sameMineFlag)
    from b revealAllMines_sameMineFlag [of b]
    have "boardRel sameMineFlag (board s) (revealAllMines b)"
      by (meson boardRel_trans sameMineFlag_trans)
    with b 2(3) show ?thesis by auto
  qed
next
  assume "reducer rnd s (CHORD r c) = Some s'"
  from chord_move_cases [OF this] consider "s' = s"
    | b where "chordReveal (board s) r c = Some b" "board s' = revealAllMines b \<or> board s' = b"
    by auto
  then show ?thesis
  proof cases
    case 1
    then show ?thesis by (simp add: boardRel_refl sameMineFlag_refl)
  next
    case 2
    from chordReveal_step [OF 2(1)] have b: "boardRel sameMineFlag (board s) b"
      by (auto elim: boardRel_mono simp: cellStep_sameMineFlag)
    from b revealAllMines_sameMineFlag [of b]
    have "boardRel sameMineFlag (board s) (revealAllMines b)"
      by (meson boardRel_trans sameMineFlag_trans)
    with b 2(2) show ?thesis by auto
  qed
qed

lemma makeInitialState_fresh: "freshBoard (board (makeInitialState d))"
proof -
  have "list_all (list_all (\<lambda>x. x = makeCell)) (board (makeInitialState d))"
    by (simp add: makeInitialState_def makeEmptyBoard_cells)
  then show ?thesis
    unfolding freshBoard_def
    by (rule boardRel_list_all [where R = "(=)", OF boardRel_refl, rotated 2])
       (simp_all add: makeCell_def)
qed

lemma moves_invariant:
  assumes "reducer rnd s (REVEAL r c) = Some s' \<or> reducer rnd s (FLAG r c) = Some s' \<or>
           reducer rnd s (CHORD r c) = Some s' \<or> reducer rnd s TICK = Some s'"
  shows "revealedKept (board s) (board s') \<and>
         ((status s' = Lost \<longrightarrow> status s = Lost) \<and> noRevealedFlag (board s) \<longrightarrow>
            noRevealedFlag (board s'))"
  using assms
proof (elim disjE)
  assume "reducer rnd s (REVEAL r c) = Some s'"
  from reveal_move_boards [OF this] show ?thesis
    using keeps_boards revealOnly_boards by blast
next
  assume "reducer rnd s (FLAG r c) = Some s'"
  from flag_move_boards [OF this] show ?thesis
    using keeps_boards by blast
next
  assume "reducer rnd s (CHORD r c) = Some s'"
  from chord_move_boards [OF this] show ?thesis
    using keeps_boards revealOnly_boards by blast
next
  assume "reducer rnd s TICK = Some s'"
  then have "board s' = board s" by (auto split: if_splits)
  then show ?thesis
    using keeps_boards [OF boardRel_refl [of keeps "board s"]] by (simp add: keeps_refl)
qed

text \<open>
  Claim C3, as amended. Every engine operation and the moves Reveal, Flag, Chord and Tick
  leave the shape of the board and never turn \<open>isRevealed\<close> from true to false.
  \<open>placeMines\<close>, \<open>computeAdjacent\<close>, \<open>revealCell\<close>, \<open>toggleFlag\<close> and \<open>chordReveal\<close> preserve
  that no cell is both revealed and flagged. \<open>revealAllMines\<close>, on a board where this
  holds, preserves it exactly when no mine is flagged. A Reveal, Flag, Chord or Tick move
  preserves it when it does not newly end in status \<open>lost\<close>; when it does, it preserves it
  exactly when no mine of the resulting board is flagged. In particular a Reveal or Chord
  in status \<open>playing\<close>, which changes neither mines nor flags, preserves it whenever no mine
  of the board is flagged. NewGame and SetDifficulty return a fresh board, on which no cell
  is revealed and no cell is flagged.
\<close>

theorem engine_invariants:
  "(placeMines rnd b m r c = Some b' \<longrightarrow>
      revealedKept b b' \<and> (noRevealedFlag b \<longrightarrow> noRevealedFlag b')) \<and>
   (computeAdjacent b = Some b' \<longrightarrow>
      revealedKept b b' \<and> (noRevealedFlag b \<longrightarrow> noRevealedFlag b')) \<and>
   (revealCell b r c = Some b' \<longrightarrow>
      revealedKept b b' \<and> (noRevealedFlag b \<longrightarrow> noRevealedFlag b')) \<and>
   (toggleFlag b r c = Some b' \<longrightarrow>
      revealedKept b b' \<and> (noRevealedFlag b \<longrightarrow> noRevealedFlag b')) \<and>
   (chordReveal b r c = Some b' \<longrightarrow>
      revealedKept b b' \<and> (noRevealedFlag b \<longrightarrow> noRevealedFlag b')) \<and>
   revealedKept b (revealAllMines b) \<and>
   (noRevealedFlag b \<longrightarrow> noRevealedFlag (revealAllMines b) = noFlaggedMine b) \<and>
   (reducer rnd s (REVEAL r c) = Some s' \<or> reducer rnd s (FLAG r c) = Some s' \<or>
    reducer rnd s (CHORD r c) = Some s' \<or> reducer rnd s TICK = Some s' \<longrightarrow>
      revealedKept (board s) (board s') \<and>
      ((status s' = Lost \<longrightarrow> status s = Lost) \<and> noRevealedFlag (board s) \<longrightarrow>
         noRevealedFlag (board s')) \<and>
      (status s' = Lost \<and> status s \<noteq> Lost \<and> noRevealedFlag (board s) \<longrightarrow>
         noRevealedFlag (board s') = noFlaggedMine (board s'))) \<and>
   (status s = Playing \<and>
    (reducer rnd s (REVEAL r c) = Some s' \<or> reducer rnd s (CHORD r c) = Some s') \<longrightarrow>
      noFlaggedMine (board s') = noFlaggedMine (board s) \<and>
      (noRevealedFlag (board s) \<and> noFlaggedMine (board s) \<longrightarrow> noRevealedFlag (board s'))) \<and>
   (reducer rnd s NEW_GAME = Some s' \<or> reducer rnd s (SET_DIFFICULTY d) = Some s' \<longrightarrow>
      freshBoard (board s') \<and> noRevealedFlag (board s'))"
proof -
  have engine: "revealedKept x y \<and> (noRevealedFlag x \<longrightarrow> noRevealedFlag y)"
    if "boardRel keeps x y" for x y
    using that by (rule keeps_boards)
  have 1: "placeMines rnd b m r c = Some b' \<longrightarrow>
      revealedKept b b' \<and> (noRevealedFlag b \<longrightarrow> noRevealedFlag b')"
    using placeMines_keeps engine by blast
  have 2: "computeAdjacent b = Some b' \<longrightarrow>
      revealedKept b b' \<and> (noRevealedFlag b \<longrightarrow> noRevealedFlag b')"
    using computeAdjacent_keeps engine by blast
  have 3: "revealCell b r c = Some b' \<longrightarrow>
      revealedKept b b' \<and> (noRevealedFlag b \<longrightarrow> noRevealedFlag b')"
    using revealCell_keeps engine by blast
  have 4: "toggleFlag b r c = Some b' \<longrightarrow>
      revealedKept b b' \<and> (noRevealedFlag b \<longrightarrow> noRevealedFlag b')"
    using toggleFlag_keeps engine by blast
  have 5: "chordReveal b r c = Some b' \<longrightarrow>
      revealedKept b b' \<and> (noRevealedFlag b \<longrightarrow> noRevealedFlag b')"
    using chordReveal_keeps engine by blast
  have 6: "revealedKept b (revealAllMines b)"
    by (rule revealOnly_boards) (rule revealAllMines_revealOnly)
  have 7: "noRevealedFlag b \<longrightarrow> noRevealedFlag (revealAllMines b) = noFlaggedMine b"
    using revealAllMines_invariant by blast
  have 8: "reducer rnd s (REVEAL r c) = Some s' \<or> reducer rnd s (FLAG r c) = Some s' \<or>
    reducer rnd s (CHORD r c) = Some s' \<or> reducer rnd s TICK = Some s' \<longrightarrow>
      revealedKept (board s) (board s') \<and>
      ((status s' = Lost \<longrightarrow> status s = Lost) \<and> noRevealedFlag (board s) \<longrightarrow>
         noRevealedFlag (board s')) \<and>
      (status s' = Lost \<and> status s \<noteq> Lost \<and> noRevealedFlag (board s) \<longrightarrow>
         noRevealedFlag (board s') = noFlaggedMine (board s'))"
  proof (intro impI conjI)
    assume m: "reducer rnd s (REVEAL r c) = Some s' \<or> reducer rnd s (FLAG r c) = Some s' \<or>
      reducer rnd s (CHORD r c) = Some s' \<or> reducer rnd s TICK = Some s'"
    from moves_invariant [OF m] show "revealedKept (board s) (board s')" by simp
    {
      assume "(status s' = Lost \<longrightarrow> status s = Lost) \<and> noRevealedFlag (board s)"
      with moves_invariant [OF m] show "noRevealedFlag (board s')" by simp
    }
    {
      assume "status s' = Lost \<and> status s \<noteq> Lost \<and> noRevealedFlag (board s)"
      then show "noRevealedFlag (board s') = noFlaggedMine (board s')"
        by (intro newly_lost_invariant [OF m]) simp_all
    }
  qed
  have 9: "status s = Playing \<and>
    (reducer rnd s (REVEAL r c) = Some s' \<or> reducer rnd s (CHORD r c) = Some s') \<longrightarrow>
      noFlaggedMine (board s') = noFlaggedMine (board s) \<and>
      (noRevealedFlag (board s) \<and> noFlaggedMine (board s) \<longrightarrow> noRevealedFlag (board s'))"
  proof (intro impI)
    assume a: "status s = Playing \<and>
      (reducer rnd s (REVEAL r c) = Some s' \<or> reducer rnd s (CHORD r c) = Some s')"
    then have st: "status s = Playing" by (rule conjunct1)
    from a have m2: "reducer rnd s (REVEAL r c) = Some s' \<or> reducer rnd s (CHORD r c) = Some s'"
      by (rule conjunct2)
    from m2 have m: "reducer rnd s (REVEAL r c) = Some s' \<or> reducer rnd s (FLAG r c) = Some s' \<or>
      reducer rnd s (CHORD r c) = Some s' \<or> reducer rnd s TICK = Some s'"
      by blast
    have fm: "noFlaggedMine (board s') = noFlaggedMine (board s)"
      by (rule sameMineFlag_noFlaggedMine [OF playing_move_frame [OF st m2]])
    have "noRevealedFlag (board s')" if inv: "noRevealedFlag (board s)" and nf: "noFlaggedMine (board s)"
    proof (cases "status s' = Lost")
      case True
      with st have "status s' = Lost" "status s \<noteq> Lost" by simp_all
      from newly_lost_invariant [OF m this inv] fm nf show ?thesis by simp
    next
      case False
      with moves_invariant [OF m] inv show ?thesis by simp
    qed
    with fm show "noFlaggedMine (board s') = noFlaggedMine (board s) \<and>
      (noRevealedFlag (board s) \<and> noFlaggedMine (board s) \<longrightarrow> noRevealedFlag (board s'))"
      by simp
  qed
  have 10: "reducer rnd s NEW_GAME = Some s' \<or> reducer rnd s (SET_DIFFICULTY d) = Some s' \<longrightarrow>
      freshBoard (board s') \<and> noRevealedFlag (board s')"
    using makeInitialState_fresh makeInitialState_noRevealedFlag by auto
  show ?thesis
    by (rule conjI [OF 1 conjI [OF 2 conjI [OF 3 conjI [OF 4 conjI [OF 5 conjI [OF 6
          conjI [OF 7 conjI [OF 8 conjI [OF 9 10]]]]]]]]])
qed

definition flaggedMine :: Board where
  "flaggedMine = [[makeCell\<lparr>isMine := True, isFlagged := True\<rparr>]]"

section \<open>The flag counter (claim C9)\<close>

lemma flag_move_result:
  assumes "status s \<noteq> Won \<and> status s \<noteq> Lost" and "cellAt (board s) r c = Some cell"
    and "\<not> isRevealed cell"
  shows "reducer rnd s (FLAG r c) =
           Some (s\<lparr>board := (board s)[nat r := (board s ! nat r)
                                   [nat c := cell\<lparr>isFlagged := \<not> isFlagged cell\<rparr>]],
                   flagCount := flagCount s + (if isFlagged cell then - 1 else 1),
                   status := (if status s = Idle then Playing else status s)\<rparr>)"
  using assms by (simp add: toggleFlag_update cellAt_update_same)


definition flaggedCells :: "Board \<Rightarrow> nat" where
  "flaggedCells b = length (filter isFlagged (concat b))"

inductive reachable :: "GameState \<Rightarrow> bool" where
  initial: "reachable (makeInitialState d)"
| move: "reachable s \<Longrightarrow> reducer rnd s a = Some s' \<Longrightarrow> reachable s'"

lemma flaggedCells_field:
  "flaggedCells b = length (filter id (concat (map (map isFlagged) b)))"
proof -
  have "length (filter isFlagged xs) = length (filter id (map isFlagged xs))" for xs :: "CellState list"
    by (simp add: filter_map comp_def)
  then show ?thesis by (simp add: flaggedCells_def map_concat [symmetric])
qed

lemma flaggedCells_revealOnly: "boardRel revealOnly b b' \<Longrightarrow> flaggedCells b' = flaggedCells b"
proof -
  assume "boardRel revealOnly b b'"
  then have "map (map isFlagged) b' = map (map isFlagged) b"
    by (rule boardRel_field) (simp add: revealOnly_def)
  then show ?thesis by (simp add: flaggedCells_field)
qed

lemma count_update:
  "j < length xs \<Longrightarrow>
     int (length (filter P (xs[j := x]))) =
       int (length (filter P xs)) - (if P (xs ! j) then 1 else 0) + (if P x then 1 else 0)"
proof (induction xs arbitrary: j)
  case Nil
  then show ?case by simp
next
  case (Cons y ys)
  show ?case
  proof (cases j)
    case 0
    then show ?thesis by simp
  next
    case (Suc k)
    with Cons.prems have "k < length ys" by simp
    from Cons.IH [OF this] Suc show ?thesis by (auto split: if_splits)
  qed
qed

lemma flaggedCells_update:
  assumes "i < length b"
  shows "int (flaggedCells (b[i := row])) =
           int (flaggedCells b) - int (length (filter isFlagged (b ! i))) +
           int (length (filter isFlagged row))"
proof -
  from assms have "b = take i b @ b ! i # drop (Suc i) b" by (rule id_take_nth_drop)
  then have "concat b = concat (take i b) @ b ! i @ concat (drop (Suc i) b)"
    by (metis concat.simps(2) concat_append)
  then have "flaggedCells b =
      length (filter isFlagged (concat (take i b))) + length (filter isFlagged (b ! i)) +
      length (filter isFlagged (concat (drop (Suc i) b)))"
    by (simp add: flaggedCells_def)
  moreover from assms have "b[i := row] = take i b @ row # drop (Suc i) b"
    by (rule upd_conv_take_nth_drop)
  then have "flaggedCells (b[i := row]) =
      length (filter isFlagged (concat (take i b))) + length (filter isFlagged row) +
      length (filter isFlagged (concat (drop (Suc i) b)))"
    by (simp add: flaggedCells_def)
  ultimately show ?thesis by simp
qed

lemma flaggedCells_toggle:
  assumes "cellAt b r c = Some cell"
  shows "int (flaggedCells (b[nat r := (b ! nat r)[nat c := cell\<lparr>isFlagged := \<not> isFlagged cell\<rparr>]])) =
           int (flaggedCells b) + (if isFlagged cell then - 1 else 1)"
proof -
  from assms have r: "nat r < length b" and c: "nat c < length (b ! nat r)"
    and cell: "cell = b ! nat r ! nat c"
    by (auto simp: cellAt_Some)
  from flaggedCells_update [OF r] count_update [OF c, of isFlagged] cell show ?thesis
    by simp
qed

lemma flaggedCells_initial: "flaggedCells (board (makeInitialState d)) = 0"
proof -
  let ?b = "board (makeInitialState d)"
  have "set (concat ?b) \<subseteq> {makeCell}"
    by (auto simp: makeInitialState_def makeEmptyBoard_def)
  moreover have "\<not> isFlagged makeCell" by (simp add: makeCell_def)
  ultimately have "filter isFlagged (concat ?b) = []"
    unfolding filter_empty_conv by blast
  then show ?thesis by (simp add: flaggedCells_def)
qed

lemma reducer_flagCount:
  assumes "reducer rnd s a = Some s'" and "flagCount s = int (flaggedCells (board s))"
  shows "flagCount s' = int (flaggedCells (board s'))"
proof (cases a)
  case (REVEAL r c)
  from assms(1) have "reducer rnd s (REVEAL r c) = Some s'" by (simp only: REVEAL)
  from reveal_move_boards [OF this] assms(2) show ?thesis
    by (auto dest: flaggedCells_revealOnly)
next
  case (FLAG r c)
  from assms(1) have "reducer rnd s (FLAG r c) = Some s'" by (simp only: FLAG)
  from flag_move_cases [OF this] consider "s' = s"
    | cell where "cellAt (board s) r c = Some cell"
        "board s' = (board s)[nat r := (board s ! nat r)
                                   [nat c := cell\<lparr>isFlagged := \<not> isFlagged cell\<rparr>]]"
        "flagCount s' = flagCount s + (if isFlagged cell then - 1 else 1)"
    by auto
  then show ?thesis
  proof cases
    case 1
    with assms(2) show ?thesis by simp
  next
    case 2
    with assms(2) flaggedCells_toggle [OF 2(1)] show ?thesis by simp
  qed
next
  case (CHORD r c)
  from assms(1) have "reducer rnd s (CHORD r c) = Some s'" by (simp only: CHORD)
  from chord_move_boards [OF this] assms(2) show ?thesis
    by (auto dest: flaggedCells_revealOnly)
next
  case NEW_GAME
  with assms(1) show ?thesis by (auto simp: flaggedCells_initial) (simp add: makeInitialState_def)
next
  case (SET_DIFFICULTY d)
  with assms(1) show ?thesis by (auto simp: flaggedCells_initial) (simp add: makeInitialState_def)
next
  case TICK
  with assms show ?thesis by (auto split: if_splits)
qed

text \<open>
  Claim C9. In every state reached from an initial state by moves of the reducer that
  return a state (a move with a coordinate outside the board returns none unless the
  state is terminal, where it returns the state unchanged), \<open>flagCount\<close> is the number of
  flagged cells of the board.
\<close>

theorem flagCount_invariant: "reachable s \<Longrightarrow> flagCount s = int (flaggedCells (board s))"
proof (induction rule: reachable.induct)
  case (initial d)
  show ?case by (simp add: flaggedCells_initial) (simp add: makeInitialState_def)
next
  case (move s rnd a s')
  from move.hyps(2) move.IH show ?case by (rule reducer_flagCount)
qed

definition oneFlagState :: GameState where
  "oneFlagState = (makeInitialState Beginner)
     \<lparr>board := (board (makeInitialState Beginner))
        [nat 0 := (board (makeInitialState Beginner) ! nat 0)[nat 0 := makeCell\<lparr>isFlagged := True\<rparr>]],
      flagCount := 1, status := Playing\<rparr>"

lemma reachable_oneFlagState: "reachable oneFlagState"
proof -
  have "status (makeInitialState Beginner) \<noteq> Won \<and> status (makeInitialState Beginner) \<noteq> Lost"
    by (simp add: makeInitialState_def)
  moreover have "cellAt (board (makeInitialState Beginner)) 0 0 = Some makeCell"
    by (simp add: makeInitialState_def makeEmptyBoard_def cellAt_def)
  moreover have "\<not> isRevealed makeCell" by (simp add: makeCell_def)
  ultimately have "reducer (\<lambda>i. 0) (makeInitialState Beginner) (FLAG 0 0) =
      Some ((makeInitialState Beginner)
        \<lparr>board := (board (makeInitialState Beginner))
            [nat 0 := (board (makeInitialState Beginner) ! nat 0)
               [nat 0 := makeCell\<lparr>isFlagged := \<not> isFlagged makeCell\<rparr>]],
         flagCount := flagCount (makeInitialState Beginner) + (if isFlagged makeCell then - 1 else 1),
         status := (if status (makeInitialState Beginner) = Idle then Playing
                    else status (makeInitialState Beginner))\<rparr>)"
    by (rule flag_move_result)
  also have "\<dots> = Some oneFlagState"
    by (simp add: oneFlagState_def) (simp add: makeInitialState_def makeCell_def)
  finally show ?thesis using reachable.initial reachable.move by blast
qed

theorem flagCount_invariant_witness:
  "reachable oneFlagState \<and> flagCount oneFlagState = 1 \<and>
   flagCount oneFlagState = int (flaggedCells (board oneFlagState))"
  using flagCount_invariant [OF reachable_oneFlagState] reachable_oneFlagState
  by (simp add: oneFlagState_def)

section \<open>The chord gate (claim C5)\<close>

definition flaggedAt :: "Board \<Rightarrow> int \<times> int \<Rightarrow> bool" where
  "flaggedAt b p = (case cellAt b (fst p) (snd p) of Some x \<Rightarrow> isFlagged x | None \<Rightarrow> False)"

definition revealedAt :: "Board \<Rightarrow> int \<times> int \<Rightarrow> bool" where
  "revealedAt b p = (case cellAt b (fst p) (snd p) of Some x \<Rightarrow> isRevealed x | None \<Rightarrow> False)"

definition hiddenUnflaggedAt :: "Board \<Rightarrow> int \<times> int \<Rightarrow> bool" where
  "hiddenUnflaggedAt b p =
     (case cellAt b (fst p) (snd p) of
        Some x \<Rightarrow> \<not> isFlagged x \<and> \<not> isRevealed x
      | None \<Rightarrow> False)"

text \<open>\<open>revealCell\<close> applied to the cells of a list, one after the other.\<close>

fun revealEach :: "(int \<times> int) list \<Rightarrow> Board \<Rightarrow> Board option" where
  "revealEach [] b = Some b"
| "revealEach ((r, c) # ps) b =
     (case revealCell b r c of None \<Rightarrow> None | Some b' \<Rightarrow> revealEach ps b')"

lemma those_cells:
  assumes "\<forall>(r, c) \<in> set ns. cellAt b r c \<noteq> None"
  shows "those (map (\<lambda>(r, c). cellAt b r c) ns) = Some (map (\<lambda>(r, c). the (cellAt b r c)) ns)"
proof -
  from assms have "map (\<lambda>(r, c). cellAt b r c) ns = map Some (map (\<lambda>(r, c). the (cellAt b r c)) ns)"
    by (auto simp: map_eq_conv)
  then show ?thesis by (simp only: those_map_Some)
qed

lemma countFlagged_eq:
  assumes "\<forall>(r, c) \<in> set ns. cellAt b r c \<noteq> None"
  shows "countFlagged b ns = Some (length (filter (flaggedAt b) ns))"
proof -
  have "filter (isFlagged \<circ> (\<lambda>(r, c). the (cellAt b r c))) ns = filter (flaggedAt b) ns"
    using assms by (intro filter_cong) (auto simp: flaggedAt_def)
  then have "length (filter isFlagged (map (\<lambda>(r, c). the (cellAt b r c)) ns)) =
        length (filter (flaggedAt b) ns)"
    by (simp add: filter_map)
  with those_cells [OF assms] show ?thesis by (simp add: countFlagged_def)
qed

lemma chordLoop_revealEach:
  assumes "\<forall>(r, c) \<in> set ns. cellAt b r c \<noteq> None"
  shows "chordLoop b ns nxt = revealEach (filter (hiddenUnflaggedAt b) ns) nxt"
  using assms
proof (induction ns arbitrary: nxt)
  case Nil
  then show ?case by simp
next
  case (Cons p ns)
  obtain r c where p: "p = (r, c)" by (cases p)
  with Cons.prems obtain cell where cell: "cellAt b r c = Some cell" by auto
  from Cons.prems have rest: "\<forall>(r, c) \<in> set ns. cellAt b r c \<noteq> None" by simp
  show ?case
  proof (cases "\<not> isFlagged cell \<and> \<not> isRevealed cell")
    case True
    with p cell have "hiddenUnflaggedAt b p" by (simp add: hiddenUnflaggedAt_def)
    with p cell True Cons.IH [OF rest] show ?thesis
      by (simp split: option.splits)
  next
    case False
    with p cell have "\<not> hiddenUnflaggedAt b p" by (auto simp: hiddenUnflaggedAt_def)
    with p cell False Cons.IH [OF rest] show ?thesis by auto
  qed
qed

lemma revealCell_reveals:
  assumes "revealCell b r c = Some b'" and "cellAt b r c = Some x" and "\<not> isFlagged x"
  shows "revealedAt b' (r, c)"
proof (cases "isRevealed x")
  case True
  with assms show ?thesis by (simp add: revealCell_def revealedAt_def)
next
  case False
  with assms have run: "bfs (setRevealed b r c) [(r, c)] = Some b'"
    by (simp add: revealCell_def)
  from assms(2) have at: "cellAt (setRevealed b r c) r c = Some (x\<lparr>isRevealed := True\<rparr>)"
    unfolding setRevealed_def by (auto simp: cellAt_Some)
  from bfs_step [OF run] have rel: "boardRel cellStep (setRevealed b r c) b'" .
  from boardRel_cellAt [OF rel, of r c] at obtain y where
    y: "cellAt b' r c = Some y" and "cellStep (x\<lparr>isRevealed := True\<rparr>) y"
    by auto
  then have "isRevealed y" by (auto simp: cellStep_def)
  with y show ?thesis by (simp add: revealedAt_def)
qed

lemma cellStep_at:
  assumes "boardRel cellStep b b'"
  shows "(revealedAt b p \<longrightarrow> revealedAt b' p) \<and> (flaggedAt b' p = flaggedAt b p) \<and>
         (cellAt b' (fst p) (snd p) = None \<longleftrightarrow> cellAt b (fst p) (snd p) = None)"
proof (cases "cellAt b (fst p) (snd p)")
  case None
  with boardRel_cellAt [OF assms, of "fst p" "snd p"] show ?thesis
    by (simp add: revealedAt_def flaggedAt_def)
next
  case (Some x)
  with boardRel_cellAt [OF assms, of "fst p" "snd p"] obtain y where
    "cellAt b' (fst p) (snd p) = Some y" "cellStep x y"
    by auto
  with Some show ?thesis
    by (auto simp: revealedAt_def flaggedAt_def cellStep_def)
qed

lemma revealEach_step: "revealEach ps b = Some b' \<Longrightarrow> boardRel cellStep b b'"
proof (induction ps arbitrary: b)
  case Nil
  then show ?case by (simp add: boardRel_refl cellStep_refl)
next
  case (Cons p ps)
  obtain r c where p: "p = (r, c)" by (cases p)
  with Cons.prems obtain b1 where b1: "revealCell b r c = Some b1" and rest: "revealEach ps b1 = Some b'"
    by (auto split: option.splits)
  from revealCell_step [OF b1] Cons.IH [OF rest] show ?case
    by (meson boardRel_trans cellStep_trans)
qed

lemma revealEach_total:
  assumes "rectangular b" and "\<forall>(r, c) \<in> set ps. cellAt b r c \<noteq> None"
  shows "\<exists>b'. revealEach ps b = Some b'"
  using assms
proof (induction ps arbitrary: b)
  case Nil
  then show ?case by simp
next
  case (Cons p ps)
  obtain r c where p: "p = (r, c)" by (cases p)
  with Cons.prems have "cellAt b r c \<noteq> None" by simp
  with Cons.prems(1) obtain b1 where b1: "revealCell b r c = Some b1"
    using revealCell_total by blast
  from revealCell_step [OF b1] have shape: "map length b1 = map length b"
    by (rule boardRel_shape)
  from Cons.prems(1) rectangular_shape [OF shape] have "rectangular b1" by simp
  moreover from Cons.prems(2) cellAt_shape [OF shape]
  have "\<forall>(r, c) \<in> set ps. cellAt b1 r c \<noteq> None" by auto
  ultimately obtain b' where "revealEach ps b1 = Some b'"
    using Cons.IH by blast
  with p b1 show ?case by simp
qed

lemma revealEach_reveals:
  assumes "revealEach ps b = Some b'" and "p \<in> set ps" and "cellAt b (fst p) (snd p) \<noteq> None"
    and "\<not> flaggedAt b p"
  shows "revealedAt b' p"
  using assms
proof (induction ps arbitrary: b)
  case Nil
  then show ?case by simp
next
  case (Cons q ps)
  obtain r c where q: "q = (r, c)" by (cases q)
  with Cons.prems(1) obtain b1 where b1: "revealCell b r c = Some b1"
    and rest: "revealEach ps b1 = Some b'"
    by (auto split: option.splits)
  note step1 = cellStep_at [OF revealCell_step [OF b1], of p]
  show ?case
  proof (cases "p = q")
    case True
    with q Cons.prems(3,4) obtain x where "cellAt b r c = Some x" "\<not> isFlagged x"
      by (auto simp: flaggedAt_def)
    with b1 have "revealedAt b1 (r, c)" by (rule revealCell_reveals)
    with cellStep_at [OF revealEach_step [OF rest], of p] True q show ?thesis by simp
  next
    case False
    with Cons.prems(2) have "p \<in> set ps" by simp
    moreover from step1 Cons.prems(3) have "cellAt b1 (fst p) (snd p) \<noteq> None" by simp
    moreover from step1 Cons.prems(4) have "\<not> flaggedAt b1 p" by simp
    ultimately show ?thesis using Cons.IH [OF rest] by blast
  qed
qed

text \<open>
  Claim C5. On a rectangular board with an in-bounds coordinate, \<open>chordReveal\<close> returns
  the board unchanged unless the cell is revealed, has \<open>adjacentMines > 0\<close> and the number
  of its flagged neighbours equals \<open>adjacentMines\<close>. In that case it returns the board that
  \<open>revealCell\<close>, applied in turn to each neighbour that is neither flagged nor revealed on
  the input board, produces; every such neighbour is revealed on it.
\<close>

theorem chordReveal_gate:
  assumes "rectangular b" and "cellAt b r c = Some cell" and "neighbors b r c = Some ns"
  shows "(\<not> (isRevealed cell \<and> 0 < adjacentMines cell \<and>
             int (length (filter (flaggedAt b) ns)) = adjacentMines cell) \<longrightarrow>
            chordReveal b r c = Some b) \<and>
         (isRevealed cell \<and> 0 < adjacentMines cell \<and>
            int (length (filter (flaggedAt b) ns)) = adjacentMines cell \<longrightarrow>
            (\<exists>b'. chordReveal b r c = Some b' \<and>
                  revealEach (filter (hiddenUnflaggedAt b) ns) b = Some b' \<and>
                  (\<forall>p \<in> set ns. hiddenUnflaggedAt b p \<longrightarrow> revealedAt b' p)))"
proof -
  have inb: "\<forall>(r', c') \<in> set ns. cellAt b r' c' \<noteq> None"
    using neighbors_in_bounds [OF assms(1,3)] by auto
  note cf = countFlagged_eq [OF inb]
  have noop: "chordReveal b r c = Some b"
    if "\<not> (isRevealed cell \<and> 0 < adjacentMines cell \<and>
             int (length (filter (flaggedAt b) ns)) = adjacentMines cell)"
  proof (cases "\<not> isRevealed cell \<or> adjacentMines cell = 0")
    case True
    with assms(2) show ?thesis by (auto simp: chordReveal_def)
  next
    case False
    with that have "int (length (filter (flaggedAt b) ns)) \<noteq> adjacentMines cell"
      by (cases "0 < adjacentMines cell") auto
    with False assms(2,3) cf show ?thesis by (simp add: chordReveal_def)
  qed
  have fire: "\<exists>b'. chordReveal b r c = Some b' \<and>
                  revealEach (filter (hiddenUnflaggedAt b) ns) b = Some b' \<and>
                  (\<forall>p \<in> set ns. hiddenUnflaggedAt b p \<longrightarrow> revealedAt b' p)"
    if "isRevealed cell \<and> 0 < adjacentMines cell \<and>
            int (length (filter (flaggedAt b) ns)) = adjacentMines cell"
  proof -
    let ?ps = "filter (hiddenUnflaggedAt b) ns"
    from that assms(2,3) cf have cr: "chordReveal b r c = revealEach ?ps b"
      by (simp add: chordReveal_def chordLoop_revealEach [OF inb])
    from inb have "\<forall>(r', c') \<in> set ?ps. cellAt b r' c' \<noteq> None" by auto
    with assms(1) obtain b' where b': "revealEach ?ps b = Some b'"
      using revealEach_total by blast
    have "revealedAt b' p" if "p \<in> set ns" "hiddenUnflaggedAt b p" for p
    proof -
      from that have "p \<in> set ?ps" by simp
      moreover from that(2) have "cellAt b (fst p) (snd p) \<noteq> None" "\<not> flaggedAt b p"
        by (auto simp: hiddenUnflaggedAt_def flaggedAt_def split: option.splits)
      ultimately show ?thesis using revealEach_reveals [OF b'] by blast
    qed
    with cr b' show ?thesis by simp
  qed
  from noop fire show ?thesis by blast
qed

theorem chordReveal_gate_witness:
  "rectangular (board chordState) \<and>
   cellAt (board chordState) 0 1 = Some (makeCell\<lparr>isRevealed := True, adjacentMines := 1\<rparr>) \<and>
   neighbors (board chordState) 0 1 = Some [(0, 0), (0, 2)] \<and>
   int (length (filter (flaggedAt (board chordState)) [(0, 0), (0, 2)])) = 1 \<and>
   chordReveal (board chordState) 0 1 = Some chordBoard \<and>
   revealEach (filter (hiddenUnflaggedAt (board chordState)) [(0, 0), (0, 2)]) (board chordState) =
     Some chordBoard \<and>
   hiddenUnflaggedAt (board chordState) (0, 0) \<and> revealedAt chordBoard (0, 0)"
proof -
  have a: "rectangular (board chordState)"
    by (simp add: chordState_def rectangular_def)
  have b: "cellAt (board chordState) 0 1 = Some (makeCell\<lparr>isRevealed := True, adjacentMines := 1\<rparr>)"
    by (simp add: chordState_def cellAt_def)
  have c: "neighbors (board chordState) 0 1 = Some [(0, 0), (0, 2)]"
    by (simp add: chordState_def neighbors_def neighborLoop_def)
  have d: "int (length (filter (flaggedAt (board chordState)) [(0, 0), (0, 2)])) = 1"
    by (simp add: chordState_def flaggedAt_def cellAt_def makeCell_def)
  have e: "hiddenUnflaggedAt (board chordState) (0, 0)"
    by (simp add: chordState_def hiddenUnflaggedAt_def cellAt_def makeCell_def)
  from chordReveal_gate [OF a b c] d e chordReveal_chordState a b c show ?thesis
    by (simp add: makeCell_def)
qed

section \<open>Mine placement (claim C4)\<close>

subsection \<open>The shuffle permutes the candidates\<close>

lemma shuffle_perm:
  "k < length cs \<or> k = 0 \<Longrightarrow>
     set (shuffle rnd k cs) = set cs \<and> distinct (shuffle rnd k cs) = distinct cs \<and>
     length (shuffle rnd k cs) = length cs"
proof (induction k arbitrary: cs)
  case 0
  then show ?case by simp
next
  case (Suc k)
  then have k: "Suc k < length cs" by simp
  let ?j = "rnd (Suc k) mod (Suc k + 1)"
  have "?j < Suc k + 1" by (rule mod_less_divisor) simp
  with k have j: "?j < length cs" by linarith
  let ?cs = "cs[Suc k := cs ! ?j, ?j := cs ! Suc k]"
  have "k < length ?cs \<or> k = 0" using k by simp
  from Suc.IH [OF this] set_swap [OF k j, of] distinct_swap [OF k j] show ?case
    by (simp add: Let_def)
qed

subsection \<open>Flattening an indexed map over a rectangular board\<close>

lemma mapi_Cons: "mapi f (x # xs) = f 0 x # mapi (\<lambda>i. f (Suc i)) xs"
  by (rule nth_equalityI) (auto simp: nth_Cons split: nat.splits)

lemma mapi_append: "mapi f (xs @ ys) = mapi f xs @ mapi (\<lambda>i. f (length xs + i)) ys"
  by (rule nth_equalityI) (auto simp: nth_append)

lemma concat_mapi_rows:
  assumes "\<forall>row \<in> set b. length row = n"
  shows "concat (mapi (\<lambda>r row. mapi (\<lambda>c. g (r * n + c)) row) b) = mapi g (concat b)"
  using assms
proof (induction b arbitrary: g)
  case Nil
  then show ?case by (simp add: mapi_def)
next
  case (Cons row rest)
  from Cons.prems have len: "length row = n" and rest: "\<forall>row \<in> set rest. length row = n"
    by simp_all
  have "concat (mapi (\<lambda>r row. mapi (\<lambda>c. g (Suc r * n + c)) row) rest) =
        concat (mapi (\<lambda>r row. mapi (\<lambda>c. (\<lambda>i. g (n + i)) (r * n + c)) row) rest)"
    by (simp add: add.assoc)
  also have "\<dots> = mapi (\<lambda>i. g (n + i)) (concat rest)"
    using rest by (rule Cons.IH)
  finally show ?case
    by (simp add: mapi_Cons mapi_append len)
qed

lemma count_mapi:
  assumes "\<And>i x. P (f i x) = Q i"
  shows "length (filter P (mapi f xs)) = length (filter Q [0 ..< length xs])"
proof -
  have "filter (P \<circ> (\<lambda>(i, x). f i x)) zs = filter (Q \<circ> fst) zs" for zs :: "(nat \<times> 'a) list"
    by (intro filter_cong) (auto simp: assms)
  then have "length (filter P (mapi f xs)) = length (filter (Q \<circ> fst) (enumerate 0 xs))"
    by (simp add: mapi_def filter_map)
  also have "\<dots> = length (map fst (filter (Q \<circ> fst) (enumerate 0 xs)))"
    by simp
  also have "map fst (filter (Q \<circ> fst) (enumerate 0 xs)) = filter Q (map fst (enumerate 0 xs))"
    by (rule filter_map [symmetric])
  also have "map fst (enumerate 0 xs) = [0 ..< length xs]"
    by simp
  finally show ?thesis .
qed

lemma count_members:
  assumes "S \<subseteq> int ` {0 ..< N}" 
  shows "length (filter (\<lambda>i. int i \<in> S) [0 ..< N]) = card S"
proof -
  have "length (filter (\<lambda>i. int i \<in> S) [0 ..< N]) = card (set (filter (\<lambda>i. int i \<in> S) [0 ..< N]))"
    by (rule distinct_card [symmetric]) simp
  also have "\<dots> = card (int ` set (filter (\<lambda>i. int i \<in> S) [0 ..< N]))"
    by (rule card_image [symmetric]) (simp add: inj_on_def)
  also have "int ` set (filter (\<lambda>i. int i \<in> S) [0 ..< N]) = S"
    using assms by auto
  finally show ?thesis .
qed

lemma index_inj:
  fixes r r' c c' n :: int
  assumes "0 \<le> c" "c < n" "0 \<le> c'" "c' < n" "r * n + c = r' * n + c'"
  shows "r = r' \<and> c = c'"
proof -
  from assms(1,2) have n: "n \<noteq> 0" by simp
  have "(r * n + c) div n = r" using assms(1,2) n by (simp add: div_pos_pos_trivial)
  moreover have "(r' * n + c') div n = r'" using assms(3,4) n by (simp add: div_pos_pos_trivial)
  ultimately have "r = r'" using assms(5) by simp
  with assms(5) show ?thesis by simp
qed

lemma upt_block: "map int [m * n ..< m * n + n] = map (\<lambda>c. int m * int n + int c) [0 ..< n]"
proof -
  have "[m * n ..< m * n + n] = map (\<lambda>i. i + m * n) [0 ..< n]"
    by (simp add: map_add_upt add.commute)
  then show ?thesis by (simp add: o_def add.commute)
qed

definition positions :: "Board \<Rightarrow> (int \<times> int) list" where
  "positions b =
     concat (map (\<lambda>r. map (\<lambda>c. (int r, int c)) [0 ..< length (hd b)]) [0 ..< length b])"

definition inZone :: "int \<Rightarrow> int \<Rightarrow> int \<times> int \<Rightarrow> bool" where
  "inZone sr sc p \<longleftrightarrow> \<bar>fst p - sr\<bar> \<le> 1 \<and> \<bar>snd p - sc\<bar> \<le> 1"

definition eligibleCount :: "Board \<Rightarrow> int \<Rightarrow> int \<Rightarrow> nat" where
  "eligibleCount b sr sc = length (filter (\<lambda>p. \<not> inZone sr sc p) (positions b))"

lemma indices_positions:
  "map int [0 ..< m * n] =
     map (\<lambda>p. fst p * int n + snd p)
       (concat (map (\<lambda>r. map (\<lambda>c. (int r, int c)) [0 ..< n]) [0 ..< m]))"
proof (induction m)
  case 0
  then show ?case by simp
next
  case (Suc m)
  let ?idx = "\<lambda>p :: int \<times> int. fst p * int n + snd p"
  let ?row = "\<lambda>r. map (\<lambda>c. (int r, int c)) [0 ..< n]"
  have e1: "Suc m * n = m * n + n" by simp
  have e2: "[0 ..< m * n + n] = [0 ..< m * n] @ [m * n ..< m * n + n]"
    by (rule upt_add_eq_append) simp
  have lhs: "map int [0 ..< Suc m * n] =
      map int [0 ..< m * n] @ map (\<lambda>c. int m * int n + int c) [0 ..< n]"
    unfolding e1 e2 map_append upt_block ..
  have "map ?idx (?row m) = map (\<lambda>c. int m * int n + int c) [0 ..< n]"
    by (simp add: o_def)
  then have rhs: "map ?idx (concat (map ?row [0 ..< Suc m])) =
      map ?idx (concat (map ?row [0 ..< m])) @ map (\<lambda>c. int m * int n + int c) [0 ..< n]"
    by simp
  show ?case by (simp only: lhs rhs Suc.IH)
qed

lemma set_positions:
  "p \<in> set (positions b) \<longleftrightarrow>
     0 \<le> fst p \<and> fst p < int (length b) \<and> 0 \<le> snd p \<and> snd p < int (length (hd b))"
proof -
  have "x \<in> int ` {0 ..< k} \<longleftrightarrow> 0 \<le> x \<and> x < int k" for x k
    by (auto simp: image_iff intro: bexI [of _ "nat x"])
  then show ?thesis
    by (cases p) (auto simp: positions_def image_iff)
qed

lemma rect_rows: "rectangular b \<Longrightarrow> \<forall>row \<in> set b. length row = length (hd b)"
  by (simp add: rectangular_def list_all_iff)

lemma length_concat_rect: "\<forall>row \<in> set b. length row = n \<Longrightarrow> length (concat b) = length b * n"
  by (induction b) simp_all

subsection \<open>The parts of \<open>placeMines\<close>\<close>

definition excludedOf :: "Board \<Rightarrow> int \<Rightarrow> int \<Rightarrow> int list" where
  "excludedOf b sr sc =
     (sr * int (length (hd b)) + sc) #
     map (\<lambda>(r, c). r * int (length (hd b)) + c)
       (neighborLoop (int (length b)) (int (length (hd b))) sr sc)"

definition candidatesOf :: "Board \<Rightarrow> int \<Rightarrow> int \<Rightarrow> int list" where
  "candidatesOf b sr sc =
     filter (\<lambda>i. i \<notin> set (excludedOf b sr sc)) (map int [0 ..< length b * length (hd b)])"

definition mineSetOf :: "(nat \<Rightarrow> nat) \<Rightarrow> Board \<Rightarrow> int \<Rightarrow> int \<Rightarrow> int \<Rightarrow> int set" where
  "mineSetOf rnd b mc sr sc =
     set (slice0 (shuffle rnd (length (candidatesOf b sr sc) - 1) (candidatesOf b sr sc)) mc)"

lemma placeMines_eq:
  "b \<noteq> [] \<Longrightarrow>
     placeMines rnd b mc sr sc =
       Some (mapi (\<lambda>r row. mapi (\<lambda>c cell.
          cell\<lparr>isMine := (int r * int (length (hd b)) + int c \<in> mineSetOf rnd b mc sr sc)\<rparr>) row) b)"
  by (cases b)
     (simp_all add: placeMines_def neighbors_def Let_def mineSetOf_def candidatesOf_def excludedOf_def)

lemma mem_neighborLoop_near:
  "(r', c') \<in> set (neighborLoop nrows ncols r c) \<longleftrightarrow>
     \<bar>r' - r\<bar> \<le> 1 \<and> \<bar>c' - c\<bar> \<le> 1 \<and> \<not> (r' = r \<and> c' = c) \<and>
     0 \<le> r' \<and> r' < nrows \<and> 0 \<le> c' \<and> c' < ncols"
  by (simp only: mem_neighborLoop near_cases)

lemma excluded_zone:
  assumes "(sr, sc) \<in> set (positions b)" and "p \<in> set (positions b)"
  shows "fst p * int (length (hd b)) + snd p \<in> set (excludedOf b sr sc) \<longleftrightarrow> inZone sr sc p"
proof -
  let ?n = "int (length (hd b))"
  let ?ns = "neighborLoop (int (length b)) ?n sr sc"
  obtain r c where p: "p = (r, c)" by (cases p)
  from assms(1) have s: "0 \<le> sc" "sc < ?n" by (simp_all add: set_positions)
  from assms(2) p have pb: "0 \<le> r" "r < int (length b)" "0 \<le> c" "c < ?n"
    by (simp_all add: set_positions)
  show ?thesis
  proof
    assume "fst p * ?n + snd p \<in> set (excludedOf b sr sc)"
    then consider "r * ?n + c = sr * ?n + sc"
      | r' c' where "(r', c') \<in> set ?ns" "r * ?n + c = r' * ?n + c'"
      using p by (auto simp: excludedOf_def)
    then show "inZone sr sc p"
    proof cases
      case 1
      with pb s have "r = sr \<and> c = sc" by (intro index_inj [of c ?n sc r sr]) simp_all
      with p show ?thesis by (simp add: inZone_def)
    next
      case 2
      from 2(1) have q: "0 \<le> c'" "c' < ?n" "\<bar>r' - sr\<bar> \<le> 1" "\<bar>c' - sc\<bar> \<le> 1"
        by (simp_all add: mem_neighborLoop_near)
      with pb 2(2) have "r = r' \<and> c = c'" by (intro index_inj [of c ?n c' r r']) simp_all
      with q p show ?thesis by (simp add: inZone_def)
    qed
  next
    assume z: "inZone sr sc p"
    show "fst p * ?n + snd p \<in> set (excludedOf b sr sc)"
    proof (cases "r = sr \<and> c = sc")
      case True
      with p show ?thesis by (simp add: excludedOf_def)
    next
      case False
      with z p pb have "(r, c) \<in> set ?ns"
        by (simp add: mem_neighborLoop_near inZone_def)
      then have "r * ?n + c \<in> (\<lambda>(r, c). r * ?n + c) ` set ?ns"
        by (rule image_eqI [rotated]) simp
      with p show ?thesis by (simp add: excludedOf_def)
    qed
  qed
qed

lemma candidates_positions:
  "candidatesOf b sr sc =
     map (\<lambda>p. fst p * int (length (hd b)) + snd p)
       (filter (\<lambda>p. fst p * int (length (hd b)) + snd p \<notin> set (excludedOf b sr sc)) (positions b))"
  unfolding candidatesOf_def indices_positions positions_def filter_map comp_def ..

lemma candidates_count:
  assumes "(sr, sc) \<in> set (positions b)"
  shows "length (candidatesOf b sr sc) = eligibleCount b sr sc"
proof -
  have "filter (\<lambda>p. fst p * int (length (hd b)) + snd p \<notin> set (excludedOf b sr sc)) (positions b) =
        filter (\<lambda>p. \<not> inZone sr sc p) (positions b)"
    by (intro filter_cong refl) (simp add: excluded_zone [OF assms])
  then show ?thesis
    by (simp add: candidates_positions eligibleCount_def)
qed

lemma candidates_distinct: "distinct (candidatesOf b sr sc)"
  by (simp add: candidatesOf_def distinct_map)

lemma candidates_range: "set (candidatesOf b sr sc) \<subseteq> int ` {0 ..< length b * length (hd b)}"
  by (auto simp: candidatesOf_def)

lemma set_slice0: "set (slice0 xs e) \<subseteq> set xs"
  by (auto simp: slice0_def dest: in_set_takeD)

lemma mineSet_candidates: "mineSetOf rnd b mc sr sc \<subseteq> set (candidatesOf b sr sc)"
proof -
  let ?cs = "candidatesOf b sr sc"
  have "length ?cs - 1 < length ?cs \<or> length ?cs - 1 = 0" by (cases ?cs) simp_all
  from shuffle_perm [OF this] set_slice0 show ?thesis
    unfolding mineSetOf_def by metis
qed

lemma mineSet_card:
  assumes "0 \<le> mc" and "mc \<le> int (length (candidatesOf b sr sc))"
  shows "int (card (mineSetOf rnd b mc sr sc)) = mc"
proof -
  let ?cs = "candidatesOf b sr sc"
  let ?sh = "shuffle rnd (length ?cs - 1) ?cs"
  have "length ?cs - 1 < length ?cs \<or> length ?cs - 1 = 0" by (cases ?cs) simp_all
  from shuffle_perm [OF this, of rnd] candidates_distinct [of b sr sc]
  have d: "distinct ?sh" and l: "length ?sh = length ?cs" by simp_all
  from assms(1) have "mineSetOf rnd b mc sr sc = set (take (nat mc) ?sh)"
    by (simp add: mineSetOf_def slice0_def)
  moreover from d have "card (set (take (nat mc) ?sh)) = length (take (nat mc) ?sh)"
    by (intro distinct_card distinct_take)
  ultimately show ?thesis using assms l by simp
qed

lemma mine_count:
  assumes "rectangular b"
  shows "length (filter isMine (concat (mapi (\<lambda>r row. mapi (\<lambda>c cell.
          cell\<lparr>isMine := (int r * int (length (hd b)) + int c \<in> S)\<rparr>) row) b))) =
         length (filter (\<lambda>i. int i \<in> S) [0 ..< length b * length (hd b)])"
proof -
  let ?n = "length (hd b)"
  let ?g = "\<lambda>i (cell :: CellState). cell\<lparr>isMine := (int i \<in> S)\<rparr>"
  from assms have rows: "\<forall>row \<in> set b. length row = ?n" by (rule rect_rows)
  have "mapi (\<lambda>r row. mapi (\<lambda>c cell. cell\<lparr>isMine := (int r * int ?n + int c \<in> S)\<rparr>) row) b =
        mapi (\<lambda>r row. mapi (\<lambda>c. ?g (r * ?n + c)) row) b"
    by simp
  also have "concat \<dots> = mapi ?g (concat b)"
    using rows by (rule concat_mapi_rows)
  finally have "length (filter isMine (concat (mapi (\<lambda>r row. mapi (\<lambda>c cell.
          cell\<lparr>isMine := (int r * int ?n + int c \<in> S)\<rparr>) row) b))) =
        length (filter isMine (mapi ?g (concat b)))"
    by simp
  also have "\<dots> = length (filter (\<lambda>i. int i \<in> S) [0 ..< length (concat b)])"
    by (rule count_mapi) simp
  finally show ?thesis using length_concat_rect [OF rows] by simp
qed

text \<open>
  Claim C4. On a rectangular board with an in-bounds safe cell, \<open>placeMines\<close> returns a
  board of the same shape with no mine on the safe cell or on any cell next to it, whatever
  the random draws are; and when \<open>mineCount\<close> is a count (not negative) that does not
  exceed the number of positions outside this zone, the returned board has exactly
  \<open>mineCount\<close> mine cells.
\<close>

theorem placeMines_safe_zone:
  assumes "rectangular b" and "cellAt b sr sc \<noteq> None"
  shows "\<exists>b'. placeMines rnd b mc sr sc = Some b' \<and> map length b' = map length b \<and>
           (\<forall>r c cell. inZone sr sc (r, c) \<and> cellAt b' r c = Some cell \<longrightarrow> \<not> isMine cell) \<and>
           (0 \<le> mc \<and> mc \<le> int (eligibleCount b sr sc) \<longrightarrow>
              int (length (filter isMine (concat b'))) = mc)"
proof -
  let ?n = "length (hd b)"
  let ?S = "mineSetOf rnd b mc sr sc"
  let ?b' = "mapi (\<lambda>r row. mapi (\<lambda>c cell.
          cell\<lparr>isMine := (int r * int ?n + int c \<in> ?S)\<rparr>) row) b"
  from assms(2) have ne: "b \<noteq> []" by (auto simp: cellAt_def split: if_splits)
  then have pm: "placeMines rnd b mc sr sc = Some ?b'" by (rule placeMines_eq)
  have safe: "(sr, sc) \<in> set (positions b)"
    using rectangular_cellAt [OF assms(1), of sr sc] assms(2) by (simp add: set_positions)
  have shape: "map length ?b' = map length b"
    by (rule nth_equalityI) simp_all
  have zone: "\<not> isMine cell" if z: "inZone sr sc (r, c)" and at: "cellAt ?b' r c = Some cell"
    for r c cell
  proof -
    from at cellAt_shape [OF shape, of r c] have inb: "cellAt b r c \<noteq> None" by simp
    have p: "(r, c) \<in> set (positions b)"
      using rectangular_cellAt [OF assms(1), of r c] inb by (simp add: set_positions)
    from inb have r: "0 \<le> r" "nat r < length b" and c: "0 \<le> c" "nat c < length (b ! nat r)"
      by (auto simp: cellAt_def Let_def split: if_splits)
    from excluded_zone [OF safe p] z have "r * int ?n + c \<in> set (excludedOf b sr sc)" by simp
    then have "r * int ?n + c \<notin> set (candidatesOf b sr sc)"
      by (simp add: candidatesOf_def)
    with mineSet_candidates [of rnd b mc sr sc] have "r * int ?n + c \<notin> ?S" by blast
    moreover from at r c have "cell = (b ! nat r ! nat c)\<lparr>isMine := (int (nat r) * int ?n + int (nat c) \<in> ?S)\<rparr>"
      by (simp add: cellAt_Some)
    ultimately show ?thesis using r c by simp
  qed
  have count: "int (length (filter isMine (concat ?b'))) = mc"
    if "0 \<le> mc \<and> mc \<le> int (eligibleCount b sr sc)"
  proof -
    from that candidates_count [OF safe] have "int (card ?S) = mc"
      by (intro mineSet_card) simp_all
    moreover from mineSet_candidates [of rnd b mc sr sc] candidates_range [of b sr sc]
    have "?S \<subseteq> int ` {0 ..< length b * ?n}" by blast
    then have "length (filter (\<lambda>i. int i \<in> ?S) [0 ..< length b * ?n]) = card ?S"
      by (rule count_members)
    ultimately show ?thesis using mine_count [OF assms(1), of ?S] by simp
  qed
  from pm shape zone count show ?thesis by blast
qed

definition stripBoard :: Board where
  "stripBoard = makeEmptyBoard 1 5"

lemma placeMines_stripBoard:
  "placeMines (\<lambda>i. 0) stripBoard 2 0 0 =
     Some [[makeCell, makeCell, makeCell, makeCell\<lparr>isMine := True\<rparr>, makeCell\<lparr>isMine := True\<rparr>]]"
  by code_simp

theorem placeMines_safe_zone_witness:
  "rectangular stripBoard \<and> cellAt stripBoard 0 0 \<noteq> None \<and>
   (2 :: int) \<le> int (eligibleCount stripBoard 0 0) \<and>
   placeMines (\<lambda>i. 0) stripBoard 2 0 0 =
     Some [[makeCell, makeCell, makeCell, makeCell\<lparr>isMine := True\<rparr>, makeCell\<lparr>isMine := True\<rparr>]] \<and>
   int (length (filter isMine (concat
     [[makeCell, makeCell, makeCell, makeCell\<lparr>isMine := True\<rparr>, makeCell\<lparr>isMine := True\<rparr>]]))) = 2"
proof -
  have a: "rectangular stripBoard"
    by (simp add: stripBoard_def makeEmptyBoard_def rectangular_def)
  have b: "cellAt stripBoard 0 0 \<noteq> None"
    by (simp add: stripBoard_def makeEmptyBoard_def cellAt_def)
  have c: "(2 :: int) \<le> int (eligibleCount stripBoard 0 0)"
    by code_simp
  from placeMines_safe_zone [OF a b, of "\<lambda>i. 0" 2] c placeMines_stripBoard a b
  show ?thesis by auto
qed

section \<open>The flood fill (claim C1)\<close>

subsection \<open>The region the flood fill covers\<close>

definition spreadsAt :: "Board \<Rightarrow> int \<times> int \<Rightarrow> bool" where
  "spreadsAt b p =
     (case cellAt b (fst p) (snd p) of
        Some x \<Rightarrow> adjacentMines x = 0 \<and> \<not> isMine x
      | None \<Rightarrow> False)"

text \<open>
  \<open>flood b s\<close>: the start cell, and every cell reached from it by steps that go from a
  non-mine cell with \<open>adjacentMines = 0\<close> to a neighbour that is unrevealed and unflagged
  on the input board.
\<close>

inductive_set flood :: "Board \<Rightarrow> int \<times> int \<Rightarrow> (int \<times> int) set" for b :: Board and s :: "int \<times> int" where
  start: "s \<in> flood b s"
| spread: "p \<in> flood b s \<Longrightarrow> spreadsAt b p \<Longrightarrow> neighbors b (fst p) (snd p) = Some ns \<Longrightarrow>
           q \<in> set ns \<Longrightarrow> hiddenUnflaggedAt b q \<Longrightarrow> q \<in> flood b s"

text \<open>The board \<open>b\<close> with the cells at the positions in \<open>V\<close> revealed.\<close>

definition revealSet :: "Board \<Rightarrow> (int \<times> int) set \<Rightarrow> Board" where
  "revealSet b V =
     mapi (\<lambda>i row. mapi (\<lambda>j x. if (int i, int j) \<in> V then x\<lparr>isRevealed := True\<rparr> else x) row) b"

lemma revealSet_shape: "map length (revealSet b V) = map length b"
  by (rule nth_equalityI) (simp_all add: revealSet_def)

lemma revealSet_nth:
  "i < length b \<Longrightarrow> j < length (b ! i) \<Longrightarrow>
     revealSet b V ! i ! j = (if (int i, int j) \<in> V then (b ! i ! j)\<lparr>isRevealed := True\<rparr> else b ! i ! j)"
  by (simp add: revealSet_def)

lemma revealSet_cellAt:
  "cellAt (revealSet b V) r c =
     map_option (\<lambda>x. if (r, c) \<in> V then x\<lparr>isRevealed := True\<rparr> else x) (cellAt b r c)"
proof (cases "cellAt b r c")
  case None
  with cellAt_shape [OF revealSet_shape, of b V r c] show ?thesis by simp
next
  case (Some x)
  then have r: "0 \<le> r" "nat r < length b" and c: "0 \<le> c" "nat c < length (b ! nat r)"
    and x: "x = b ! nat r ! nat c"
    by (auto simp: cellAt_Some)
  from Some have "r < int (length b)" "c < int (length (b ! nat r))"
    by (simp_all add: cellAt_Some)
  with r c have "cellAt (revealSet b V) r c = Some (revealSet b V ! nat r ! nat c)"
    by (simp add: cellAt_def revealSet_def)
  with r c x Some show ?thesis by (simp add: revealSet_nth)
qed

lemma board_eqI:
  assumes "map length b1 = map length b2"
    and "\<And>i j. i < length b2 \<Longrightarrow> j < length (b2 ! i) \<Longrightarrow> b1 ! i ! j = b2 ! i ! j"
  shows "b1 = b2"
proof (rule nth_equalityI)
  from assms(1) show len: "length b1 = length b2" by (rule map_eq_imp_length_eq)
  fix i assume i: "i < length b1"
  with len assms(1) have "length (b1 ! i) = length (b2 ! i)" by (metis nth_map)
  with i len show "b1 ! i = b2 ! i" by (intro nth_equalityI) (simp_all add: assms(2))
qed

lemma setRevealed_revealSet:
  assumes "cellAt b r c \<noteq> None"
  shows "setRevealed (revealSet b V) r c = revealSet b (insert (r, c) V)"
proof (rule board_eqI)
  show "map length (setRevealed (revealSet b V) r c) = map length (revealSet b (insert (r, c) V))"
    by (simp add: setRevealed_shape revealSet_shape)
next
  fix i j
  assume "i < length (revealSet b (insert (r, c) V))" "j < length (revealSet b (insert (r, c) V) ! i)"
  then have ij: "i < length b" "j < length (b ! i)" by (simp_all add: revealSet_def)
  from assms obtain x where x: "cellAt b r c = Some x" by auto
  then have at: "cellAt (revealSet b V) r c = Some (if (r, c) \<in> V then x\<lparr>isRevealed := True\<rparr> else x)"
    by (simp add: revealSet_cellAt)
  from ij have ij': "i < length (revealSet b V)" "j < length (revealSet b V ! i)"
    by (simp_all add: revealSet_def)
  from x have xb: "x = b ! nat r ! nat c" and rc: "0 \<le> r" "0 \<le> c" by (auto simp: cellAt_Some)
  show "setRevealed (revealSet b V) r c ! i ! j = revealSet b (insert (r, c) V) ! i ! j"
  proof (cases "int i = r \<and> int j = c")
    case True
    with xb have "b ! i ! j = x" by auto
    with True ij show ?thesis
      by (simp add: setRevealed_nth [OF at ij'] revealSet_nth)
  next
    case False
    with ij show ?thesis
      by (auto simp: setRevealed_nth [OF at ij'] revealSet_nth)
  qed
qed

lemma revealSet_empty: "revealSet b {} = b"
  by (rule board_eqI) (simp_all add: revealSet_shape revealSet_nth)

subsection \<open>The loops compute the region\<close>

definition floodStep :: "Board \<Rightarrow> int \<times> int \<Rightarrow> int \<times> int \<Rightarrow> bool" where
  "floodStep b p q \<longleftrightarrow>
     spreadsAt b p \<and> (\<exists>ns. neighbors b (fst p) (snd p) = Some ns \<and> q \<in> set ns) \<and>
     hiddenUnflaggedAt b q"

lemma flood_closed:
  assumes "s \<in> V" and "\<forall>p \<in> V. \<forall>q. floodStep b p q \<longrightarrow> q \<in> V"
  shows "flood b s \<subseteq> V"
proof
  fix p assume "p \<in> flood b s"
  then show "p \<in> V"
  proof (induction rule: flood.induct)
    case start
    from assms(1) show ?case .
  next
    case (spread p ns q)
    then have "floodStep b p q" by (auto simp: floodStep_def)
    with spread.IH assms(2) show ?case by blast
  qed
qed

lemma flood_step: "p \<in> flood b s \<Longrightarrow> floodStep b p q \<Longrightarrow> q \<in> flood b s"
  by (auto simp: floodStep_def intro: flood.spread)

lemma flood_in_bounds:
  assumes "cellAt b (fst s) (snd s) \<noteq> None" and "p \<in> flood b s"
  shows "cellAt b (fst p) (snd p) \<noteq> None"
  using assms(2,1)
  by (cases rule: flood.cases) (auto simp: hiddenUnflaggedAt_def split: option.splits)

lemma flood_hidden:
  assumes "hiddenUnflaggedAt b s" and "p \<in> flood b s"
  shows "hiddenUnflaggedAt b p"
  using assms(2,1) by (cases rule: flood.cases) auto

lemma revealNeighbors_revealSet:
  assumes "\<forall>(r, c) \<in> set ns. cellAt b r c \<noteq> None"
  shows "\<exists>new. revealNeighbors (revealSet b V) queue ns =
                  Some (revealSet b (V \<union> set new), queue @ new) \<and>
               set new = {q \<in> set ns. hiddenUnflaggedAt b q} - V"
  using assms
proof (induction ns arbitrary: V queue)
  case Nil
  show ?case by (rule exI [of _ "[]"]) simp
next
  case (Cons q ns)
  obtain nr nc where q: "q = (nr, nc)" by (cases q)
  with Cons.prems obtain x where x: "cellAt b nr nc = Some x" by auto
  from Cons.prems have rest: "\<forall>(r, c) \<in> set ns. cellAt b r c \<noteq> None" by simp
  let ?x' = "if (nr, nc) \<in> V then x\<lparr>isRevealed := True\<rparr> else x"
  from x have at: "cellAt (revealSet b V) nr nc = Some ?x'"
    by (simp add: revealSet_cellAt)
  have test: "\<not> isRevealed ?x' \<and> \<not> isFlagged ?x' \<longleftrightarrow> q \<notin> V \<and> hiddenUnflaggedAt b q"
    using x q by (auto simp: hiddenUnflaggedAt_def)
  show ?case
  proof (cases "q \<notin> V \<and> hiddenUnflaggedAt b q")
    case True
    from x have sr: "setRevealed (revealSet b V) nr nc = revealSet b (insert q V)"
      unfolding q by (intro setRevealed_revealSet) simp
    from Cons.IH [OF rest, of "insert q V" "queue @ [q]"] obtain new where
      run: "revealNeighbors (revealSet b (insert q V)) (queue @ [q]) ns =
              Some (revealSet b (insert q V \<union> set new), (queue @ [q]) @ new)"
      and new: "set new = {q' \<in> set ns. hiddenUnflaggedAt b q'} - insert q V"
      by blast
    from True test at have "revealNeighbors (revealSet b V) queue (q # ns) =
        revealNeighbors (setRevealed (revealSet b V) nr nc) (queue @ [(nr, nc)]) ns"
      unfolding q by simp
    with run sr q have "revealNeighbors (revealSet b V) queue (q # ns) =
        Some (revealSet b (V \<union> set (q # new)), queue @ (q # new))"
      by simp
    moreover from new True have "set (q # new) = {q' \<in> set (q # ns). hiddenUnflaggedAt b q'} - V"
      by auto
    ultimately show ?thesis by blast
  next
    case False
    from Cons.IH [OF rest, of V queue] obtain new where
      run: "revealNeighbors (revealSet b V) queue ns = Some (revealSet b (V \<union> set new), queue @ new)"
      and new: "set new = {q' \<in> set ns. hiddenUnflaggedAt b q'} - V"
      by blast
    from False test at have "revealNeighbors (revealSet b V) queue (q # ns) =
        revealNeighbors (revealSet b V) queue ns"
      unfolding q by auto
    moreover from new False have "set new = {q' \<in> set (q # ns). hiddenUnflaggedAt b q'} - V"
      by auto
    ultimately show ?thesis using run by auto
  qed
qed

text \<open>
  The invariant of the \<open>while\<close> loop: \<open>V\<close> holds the cells revealed so far; the queue
  holds cells of \<open>V\<close>; \<open>V\<close> is part of the region and contains the start; and every cell
  of \<open>V\<close> that has left the queue has all its successors in \<open>V\<close>.
\<close>

definition floodInv :: "Board \<Rightarrow> int \<times> int \<Rightarrow> (int \<times> int) set \<Rightarrow> (int \<times> int) list \<Rightarrow> bool" where
  "floodInv b s V queue \<longleftrightarrow>
     set queue \<subseteq> V \<and> V \<subseteq> flood b s \<and> s \<in> V \<and>
     (\<forall>p \<in> V - set queue. \<forall>q. floodStep b p q \<longrightarrow> q \<in> V)"

lemma floodInv_done: "floodInv b s V [] \<Longrightarrow> V = flood b s"
proof -
  assume inv: "floodInv b s V []"
  then have "s \<in> V" and "\<forall>p \<in> V. \<forall>q. floodStep b p q \<longrightarrow> q \<in> V"
    by (simp_all add: floodInv_def)
  then have "flood b s \<subseteq> V" by (rule flood_closed)
  moreover from inv have "V \<subseteq> flood b s" by (simp add: floodInv_def)
  ultimately show ?thesis by (rule subset_antisym [rotated])
qed

lemma floodInv_skip:
  assumes "floodInv b s V (p # queue)" and "\<not> spreadsAt b p"
  shows "floodInv b s V queue"
proof -
  from assms(1) have q: "set queue \<subseteq> V" and f: "V \<subseteq> flood b s" and s: "s \<in> V"
    and cl: "\<forall>p' \<in> V - set (p # queue). \<forall>q. floodStep b p' q \<longrightarrow> q \<in> V"
    by (simp_all add: floodInv_def)
  have "q \<in> V" if "p' \<in> V - set queue" "floodStep b p' q" for p' q
  proof (cases "p' = p")
    case True
    with that(2) assms(2) show ?thesis by (simp add: floodStep_def)
  next
    case False
    with that(1) have "p' \<in> V - set (p # queue)" by simp
    with cl that(2) show ?thesis by blast
  qed
  with q f s show ?thesis unfolding floodInv_def by blast
qed

lemma floodInv_spread:
  assumes "floodInv b s V (p # queue)" and "spreadsAt b p"
    and "neighbors b (fst p) (snd p) = Some ns"
    and "set new = {q \<in> set ns. hiddenUnflaggedAt b q} - V"
  shows "floodInv b s (V \<union> set new) (queue @ new)"
proof -
  from assms(1) have q: "set queue \<subseteq> V" and pV: "p \<in> V" and f: "V \<subseteq> flood b s" and s: "s \<in> V"
    and cl: "\<forall>p' \<in> V - set (p # queue). \<forall>q. floodStep b p' q \<longrightarrow> q \<in> V"
    by (simp_all add: floodInv_def)
  from pV f have pF: "p \<in> flood b s" by blast
  have new_flood: "q \<in> flood b s" if "q \<in> set new" for q
  proof -
    from that assms(4) have "q \<in> set ns" "hiddenUnflaggedAt b q" by simp_all
    with pF assms(2,3) show ?thesis by (rule flood.spread)
  qed
  have closed: "q \<in> V \<union> set new"
    if "p' \<in> (V \<union> set new) - set (queue @ new)" "floodStep b p' q" for p' q
  proof (cases "p' = p")
    case True
    with that(2) assms(3) have "q \<in> set ns" "hiddenUnflaggedAt b q"
      by (simp_all add: floodStep_def)
    with assms(4) show ?thesis by blast
  next
    case False
    with that(1) have "p' \<in> V - set (p # queue)" by auto
    with cl that(2) have "q \<in> V" by blast
    then show ?thesis by simp
  qed
  have 1: "set (queue @ new) \<subseteq> V \<union> set new" using q by auto
  have 2: "V \<union> set new \<subseteq> flood b s" using f new_flood by blast
  have 3: "s \<in> V \<union> set new" using s by simp
  from 1 2 3 closed show ?thesis unfolding floodInv_def by blast
qed

lemma bfs_spread:
  assumes "cellAt nxt r c = Some y" and "adjacentMines y = 0 \<and> \<not> isMine y"
    and "neighbors nxt r c = Some ns" and "revealNeighbors nxt queue ns = Some (nxt', queue')"
  shows "bfs nxt ((r, c) # queue) = bfs nxt' queue'"
  using assms by simp

lemma bfs_skip:
  assumes "cellAt nxt r c = Some y" and "\<not> (adjacentMines y = 0 \<and> \<not> isMine y)"
  shows "bfs nxt ((r, c) # queue) = bfs nxt queue"
  using assms by auto

lemma bfs_revealSet:
  assumes "rectangular b" and "cellAt b (fst s) (snd s) \<noteq> None"
  shows "nxt = revealSet b V \<Longrightarrow> floodInv b s V queue \<Longrightarrow>
         bfs nxt queue = Some (revealSet b (flood b s))"
proof (induction nxt queue arbitrary: V rule: bfs.induct)
  case (1 nxt)
  from floodInv_done [OF "1.prems"(2)] "1.prems"(1) show ?case by simp
next
  case (2 nxt r c queue)
  let ?p = "(r, c)"
  from "2.prems"(2) have pV: "?p \<in> V" and pF: "?p \<in> flood b s"
    by (auto simp: floodInv_def)
  from flood_in_bounds [OF assms(2) pF] obtain x where x: "cellAt b r c = Some x" by auto
  let ?y = "x\<lparr>isRevealed := True\<rparr>"
  from x pV "2.prems"(1) have at: "cellAt nxt r c = Some ?y"
    by (simp add: revealSet_cellAt)
  have test: "adjacentMines ?y = 0 \<and> \<not> isMine ?y \<longleftrightarrow> spreadsAt b ?p"
    using x by (simp add: spreadsAt_def)
  show ?case
  proof (cases "spreadsAt b ?p")
    case True
    with test have cond: "adjacentMines ?y = 0 \<and> \<not> isMine ?y" by simp
    from x have "b \<noteq> []" by (auto simp: cellAt_Some)
    then obtain ns where ns: "neighbors b r c = Some ns" using neighbors_total by blast
    with "2.prems"(1) have ns': "neighbors nxt r c = Some ns"
      by (simp add: neighbors_shape [OF revealSet_shape])
    have inb: "\<forall>(r', c') \<in> set ns. cellAt b r' c' \<noteq> None"
      using neighbors_in_bounds [OF assms(1) ns] by auto
    from revealNeighbors_revealSet [OF inb, of V queue] obtain new where
      run: "revealNeighbors (revealSet b V) queue ns = Some (revealSet b (V \<union> set new), queue @ new)"
      and new: "set new = {q \<in> set ns. hiddenUnflaggedAt b q} - V"
      by blast
    from run "2.prems"(1) have run': "revealNeighbors nxt queue ns =
        Some (revealSet b (V \<union> set new), queue @ new)"
      by simp
    from ns have ns2: "neighbors b (fst ?p) (snd ?p) = Some ns" by simp
    from floodInv_spread [OF "2.prems"(2) True ns2 new]
    have inv: "floodInv b s (V \<union> set new) (queue @ new)" .
    from "2.IH"(1) [OF at cond ns' run' refl refl inv]
    have "bfs (revealSet b (V \<union> set new)) (queue @ new) = Some (revealSet b (flood b s))" .
    with bfs_spread [OF at cond ns' run'] show ?thesis by simp
  next
    case False
    with test have cond: "\<not> (adjacentMines ?y = 0 \<and> \<not> isMine ?y)" by simp
    from floodInv_skip [OF "2.prems"(2) False] have inv: "floodInv b s V queue" .
    from "2.IH"(2) [OF at cond "2.prems"(1) inv]
    have "bfs nxt queue = Some (revealSet b (flood b s))" .
    with bfs_skip [OF at cond] show ?thesis by simp
  qed
qed

subsection \<open>What \<open>revealCell\<close> reveals\<close>

lemma revealCell_revealSet:
  assumes "rectangular b" and "cellAt b r c = Some cell" and "\<not> isRevealed cell"
    and "\<not> isFlagged cell"
  shows "revealCell b r c = Some (revealSet b (flood b (r, c)))"
proof -
  let ?s = "(r, c)"
  from assms(2) have inb: "cellAt b (fst ?s) (snd ?s) \<noteq> None" by simp
  from assms(2) have "setRevealed (revealSet b {}) r c = revealSet b (insert ?s {})"
    by (intro setRevealed_revealSet) simp
  then have start: "setRevealed b r c = revealSet b {?s}"
    by (simp add: revealSet_empty)
  have "floodInv b ?s {?s} [?s]"
    by (simp add: floodInv_def flood.start)
  with start have "bfs (setRevealed b r c) [?s] = Some (revealSet b (flood b ?s))"
    by (intro bfs_revealSet [OF assms(1) inb]) simp_all
  with assms(2,3,4) show ?thesis by (simp add: revealCell_def)
qed

text \<open>
  Claim C1, as amended. On a rectangular board, \<open>revealCell\<close> at an in-bounds cell that is
  unrevealed and unflagged (so in particular at such a cell that is no mine and has
  \<open>adjacentMines = 0\<close>) returns a board of the same shape on which exactly the cells of
  \<open>flood\<close> have become revealed: the start cell and the cells reached from it by steps
  from a non-mine cell with \<open>adjacentMines = 0\<close> to a neighbour that is unrevealed and
  unflagged on the input board, so the fill passes neither through flagged nor through
  already revealed cells. Every cell of \<open>flood\<close> was unrevealed and unflagged: no flagged
  cell becomes revealed. Every other cell is unchanged.
\<close>

theorem revealCell_flood:
  assumes "rectangular b" and "cellAt b r c = Some cell" and "\<not> isRevealed cell"
    and "\<not> isFlagged cell"
  shows "\<exists>b'. revealCell b r c = Some b' \<and> map length b' = map length b \<and>
           (\<forall>p x. cellAt b (fst p) (snd p) = Some x \<longrightarrow>
              cellAt b' (fst p) (snd p) =
                Some (if p \<in> flood b (r, c) then x\<lparr>isRevealed := True\<rparr> else x)) \<and>
           (\<forall>p \<in> flood b (r, c). hiddenUnflaggedAt b p)"
proof -
  let ?b' = "revealSet b (flood b (r, c))"
  have "revealCell b r c = Some ?b'" using assms by (rule revealCell_revealSet)
  moreover have "map length ?b' = map length b" by (rule revealSet_shape)
  moreover have "cellAt ?b' (fst p) (snd p) =
      Some (if p \<in> flood b (r, c) then x\<lparr>isRevealed := True\<rparr> else x)"
    if "cellAt b (fst p) (snd p) = Some x" for p x
    using that by (simp add: revealSet_cellAt)
  moreover have "hiddenUnflaggedAt b (r, c)"
    using assms(2,3,4) by (simp add: hiddenUnflaggedAt_def)
  then have "hiddenUnflaggedAt b p" if "p \<in> flood b (r, c)" for p
    using that by (rule flood_hidden)
  ultimately show ?thesis by blast
qed

definition minedBoard :: Board where
  "minedBoard =
     [[makeCell, makeCell, makeCell\<lparr>adjacentMines := 1\<rparr>, makeCell\<lparr>isMine := True\<rparr>],
      [makeCell, makeCell, makeCell\<lparr>adjacentMines := 1\<rparr>, makeCell\<lparr>adjacentMines := 1\<rparr>]]"

definition minedBoardOpened :: Board where
  "minedBoardOpened =
     [[makeCell\<lparr>isRevealed := True\<rparr>, makeCell\<lparr>isRevealed := True\<rparr>,
       makeCell\<lparr>isRevealed := True, adjacentMines := 1\<rparr>, makeCell\<lparr>isMine := True\<rparr>],
      [makeCell\<lparr>isRevealed := True\<rparr>, makeCell\<lparr>isRevealed := True\<rparr>,
       makeCell\<lparr>isRevealed := True, adjacentMines := 1\<rparr>, makeCell\<lparr>adjacentMines := 1\<rparr>]]"

lemma revealCell_minedBoard: "revealCell minedBoard 0 0 = Some minedBoardOpened"
  by code_simp

theorem revealCell_flood_witness:
  "rectangular minedBoard \<and> cellAt minedBoard 0 0 = Some makeCell \<and>
   \<not> isRevealed makeCell \<and> \<not> isFlagged makeCell \<and>
   revealCell minedBoard 0 0 = Some minedBoardOpened \<and>
   (1, 2) \<in> flood minedBoard (0, 0) \<and> (1, 3) \<notin> flood minedBoard (0, 0) \<and>
   (0, 3) \<notin> flood minedBoard (0, 0)"
proof -
  have a: "rectangular minedBoard" by (simp add: minedBoard_def rectangular_def)
  have b: "cellAt minedBoard 0 0 = Some makeCell" by (simp add: minedBoard_def cellAt_def)
  have c: "\<not> isRevealed makeCell" "\<not> isFlagged makeCell" by (simp_all add: makeCell_def)
  from revealCell_flood [OF a b c] revealCell_minedBoard
  have at: "cellAt minedBoard (fst p) (snd p) = Some x \<Longrightarrow>
      cellAt minedBoardOpened (fst p) (snd p) =
        Some (if p \<in> flood minedBoard (0, 0) then x\<lparr>isRevealed := True\<rparr> else x)" for p x
    by auto
  have "cellAt minedBoard (fst (1, 2)) (snd (1, 2)) = Some (makeCell\<lparr>adjacentMines := 1\<rparr>)"
    by (simp add: minedBoard_def cellAt_def)
  from at [OF this] have 1: "(1, 2) \<in> flood minedBoard (0, 0)"
    by (auto simp: minedBoardOpened_def cellAt_def makeCell_def split: if_splits)
  have "cellAt minedBoard (fst (1, 3)) (snd (1, 3)) = Some (makeCell\<lparr>adjacentMines := 1\<rparr>)"
    by (simp add: minedBoard_def cellAt_def)
  from at [OF this] have 2: "(1, 3) \<notin> flood minedBoard (0, 0)"
    by (auto simp: minedBoardOpened_def cellAt_def makeCell_def split: if_splits)
  have "cellAt minedBoard (fst (0, 3)) (snd (0, 3)) = Some (makeCell\<lparr>isMine := True\<rparr>)"
    by (simp add: minedBoard_def cellAt_def)
  from at [OF this] have 3: "(0, 3) \<notin> flood minedBoard (0, 0)"
    by (auto simp: minedBoardOpened_def cellAt_def makeCell_def split: if_splits)
  from a b c revealCell_minedBoard 1 2 3 show ?thesis by simp
qed

subsection \<open>The claim as the specification words it\<close>

definition zeroAt :: "Board \<Rightarrow> int \<times> int \<Rightarrow> bool" where
  "zeroAt b p =
     (case cellAt b (fst p) (snd p) of Some x \<Rightarrow> adjacentMines x = 0 | None \<Rightarrow> False)"

text \<open>
  The connected zero-\<open>adjacentMines\<close> region that contains \<open>s\<close>, in the words of the
  specification: the cells joined to \<open>s\<close> by a chain of neighbouring cells with
  \<open>adjacentMines = 0\<close>.
\<close>

inductive_set specZeroRegion :: "Board \<Rightarrow> int \<times> int \<Rightarrow> (int \<times> int) set"
  for b :: Board and s :: "int \<times> int" where
  here: "s \<in> specZeroRegion b s"
| next_zero: "p \<in> specZeroRegion b s \<Longrightarrow> neighbors b (fst p) (snd p) = Some ns \<Longrightarrow>
              q \<in> set ns \<Longrightarrow> zeroAt b q \<Longrightarrow> q \<in> specZeroRegion b s"

text \<open>
  Claim C1 as stated fails where a flag stands in the region: on a row of three cells with
  \<open>adjacentMines = 0\<close> and the middle one flagged, the third cell belongs to the connected
  zero region of the first and is not flagged, yet revealing the first cell leaves it
  unrevealed.
\<close>

theorem revealCell_flood_counterexample:
  "hiddenUnflaggedAt flagRow (0, 0) \<and> spreadsAt flagRow (0, 0) \<and>
   (0, 2) \<in> specZeroRegion flagRow (0, 0) \<and> \<not> flaggedAt flagRow (0, 2) \<and>
   revealCell flagRow 0 0 =
     Some [[makeCell\<lparr>isRevealed := True\<rparr>, makeCell\<lparr>isFlagged := True\<rparr>, makeCell]] \<and>
   \<not> revealedAt [[makeCell\<lparr>isRevealed := True\<rparr>, makeCell\<lparr>isFlagged := True\<rparr>, makeCell]] (0, 2)"
proof -
  have n0: "neighbors flagRow (fst (0, 0)) (snd (0, 0)) = Some [(0, 1)]"
    by (simp add: flagRow_def neighbors_def neighborLoop_def)
  have n1: "neighbors flagRow (fst (0, 1)) (snd (0, 1)) = Some [(0, 0), (0, 2)]"
    by (simp add: flagRow_def neighbors_def neighborLoop_def)
  have z1: "zeroAt flagRow (0, 1)" and z2: "zeroAt flagRow (0, 2)"
    by (simp_all add: zeroAt_def flagRow_def cellAt_def makeCell_def)
  have "(0, 1) \<in> specZeroRegion flagRow (0, 0)"
    by (rule specZeroRegion.next_zero [OF specZeroRegion.here n0 _ z1]) simp
  then have "(0, 2) \<in> specZeroRegion flagRow (0, 0)"
    by (rule specZeroRegion.next_zero [OF _ n1 _ z2]) simp
  moreover have "hiddenUnflaggedAt flagRow (0, 0)" "spreadsAt flagRow (0, 0)"
    "\<not> flaggedAt flagRow (0, 2)"
    "\<not> revealedAt [[makeCell\<lparr>isRevealed := True\<rparr>, makeCell\<lparr>isFlagged := True\<rparr>, makeCell]] (0, 2)"
    by (simp_all add: hiddenUnflaggedAt_def spreadsAt_def flaggedAt_def revealedAt_def
          flagRow_def cellAt_def makeCell_def)
  ultimately show ?thesis using revealCell_flagRow by simp
qed

section \<open>A game played from the initial state\<close>

text \<open>
  The draws of the first click: every draw returns its own index, so that the swap changes
  nothing, except the draw at index 10, which returns 8. The ten mines then lie on the
  cells (0,0) to (0,7), (1,0) and (1,1) of the beginner board.
\<close>

definition gameRnd :: "nat \<Rightarrow> nat" where
  "gameRnd i = (if i = 10 then 8 else i)"

definition gameMines :: "(nat \<times> nat) list" where
  "gameMines = [(0, 0), (0, 1), (0, 2), (0, 3), (0, 4), (0, 5), (0, 6), (0, 7), (1, 0), (1, 1)]"

definition gameCounts :: "int list list" where
  "gameCounts =
     [[0, 0, 0, 0, 0, 0, 0, 0, 1],
      [0, 0, 4, 3, 3, 3, 3, 2, 1],
      [2, 2, 1, 0, 0, 0, 0, 0, 0]] @ replicate 6 (replicate 9 0)"

text \<open>
  The board of this game after the first click on (4,4), which reveals every cell of the
  rows 2 to 8 and the cells (1,2) to (1,8), with the cells of \<open>flags\<close> flagged and the cells
  of \<open>opened\<close> revealed in addition.
\<close>

definition gameBoard :: "(nat \<times> nat) list \<Rightarrow> (nat \<times> nat) list \<Rightarrow> Board" where
  "gameBoard flags opened =
     mapi (\<lambda>r. mapi (\<lambda>c n.
       \<lparr>isMine = ((r, c) \<in> set gameMines),
        isRevealed = (2 \<le> r \<or> (r = 1 \<and> 2 \<le> c) \<or> (r, c) \<in> set opened),
        isFlagged = ((r, c) \<in> set flags),
        adjacentMines = n\<rparr>)) gameCounts"

definition game1 :: GameState where
  "game1 = (makeInitialState Beginner)\<lparr>board := gameBoard [] [], status := Playing\<rparr>"

definition game2 :: GameState where
  "game2 = game1\<lparr>board := gameBoard [(0, 8)] [], flagCount := 1\<rparr>"

definition game2Lost :: GameState where
  "game2Lost = game2\<lparr>board := gameBoard [(0, 8)] gameMines, status := Lost,
                     losingCell := Some (0, 7)\<rparr>"

definition game3 :: GameState where
  "game3 = game2\<lparr>board := gameBoard [(0, 8), (0, 0)] [], flagCount := 2\<rparr>"

definition game3Lost :: GameState where
  "game3Lost = game3\<lparr>board := gameBoard [(0, 8), (0, 0)] gameMines, status := Lost,
                     losingCell := Some (0, 7)\<rparr>"

lemma game1_move: "reducer gameRnd (makeInitialState Beginner) (REVEAL 4 4) = Some game1"
  by code_simp

lemma game2_move: "reducer gameRnd game1 (FLAG 0 8) = Some game2"
  by code_simp

lemma game2Lost_move: "reducer gameRnd game2 (CHORD 1 8) = Some game2Lost"
  by code_simp

lemma game3_move: "reducer gameRnd game2 (FLAG 0 0) = Some game3"
  by code_simp

lemma game3Lost_move: "reducer gameRnd game3 (CHORD 1 8) = Some game3Lost"
  by code_simp

lemma game2_chord: "chordReveal (board game2) 1 8 = Some (gameBoard [(0, 8)] [(0, 7)])"
  by code_simp

lemma reachable_game1: "reachable game1"
  using reachable.initial game1_move by (rule reachable.move)

lemma reachable_game2: "reachable game2"
  using reachable_game1 game2_move by (rule reachable.move)

lemma reachable_game3: "reachable game3"
  using reachable_game2 game3_move by (rule reachable.move)

lemma game2_facts:
  "status game2 = Playing \<and> noRevealedFlag (board game2) \<and> noFlaggedMine (board game2)"
  by code_simp

lemma game3_facts: "status game3 = Playing \<and> noRevealedFlag (board game3)"
  by code_simp

text \<open>
  Claim C6 as stated fails. In a game reached from the initial state (first click on
  (4,4), then a flag on the safe cell (0,8)), the chord on (1,8) reveals the mine (0,7) and
  ends the game with \<open>losingCell = (0,7)\<close>; the first mine of the board in row-major
  order is the cell (0,0), revealed on the resulting board like every mine.
\<close>

theorem chord_loss_counterexample:
  "reachable game2 \<and> status game2 = Playing \<and>
   reducer gameRnd game2 (CHORD 1 8) = Some game2Lost \<and>
   status game2Lost = Lost \<and> losingCell game2Lost = Some (0, 7) \<and>
   isMine (board game2Lost ! 0 ! 0) \<and> isRevealed (board game2Lost ! 0 ! 0)"
proof -
  have "status game2Lost = Lost \<and> losingCell game2Lost = Some (0, 7) \<and>
    isMine (board game2Lost ! 0 ! 0) \<and> isRevealed (board game2Lost ! 0 ! 0)"
    by code_simp
  with reachable_game2 game2_facts game2Lost_move show ?thesis by blast
qed

theorem chord_loss_witness:
  "status game2 = Playing \<and>
   chordReveal (board game2) 1 8 = Some (gameBoard [(0, 8)] [(0, 7)]) \<and>
   isMine (gameBoard [(0, 8)] [(0, 7)] ! 0 ! 7) \<and>
   isRevealed (gameBoard [(0, 8)] [(0, 7)] ! 0 ! 7) \<and>
   isMine (gameBoard [(0, 8)] [(0, 7)] ! 0 ! 0) \<and>
   \<not> isRevealed (gameBoard [(0, 8)] [(0, 7)] ! 0 ! 0) \<and>
   reducer gameRnd game2 (CHORD 1 8) =
     Some (game2\<lparr>board := revealAllMines (gameBoard [(0, 8)] [(0, 7)]), status := Lost,
                  losingCell := Some (0, 7)\<rparr>)"
proof -
  let ?b = "gameBoard [(0, 8)] [(0, 7)]"
  have a: "status game2 = Playing" using game2_facts by simp
  have cells: "isMine (?b ! 0 ! 7) \<and> isRevealed (?b ! 0 ! 7) \<and>
      isMine (?b ! 0 ! 0) \<and> \<not> isRevealed (?b ! 0 ! 0) \<and> ?b ! 0 ! 7 \<in> set (?b ! 0) \<and>
      ?b ! 0 \<in> set ?b"
    by code_simp
  then have c: "\<exists>row \<in> set ?b. \<exists>cell \<in> set row. isMine cell \<and> isRevealed cell"
    by blast
  from chord_loss [OF a game2_chord c, of gameRnd] obtain i j where
    red: "reducer gameRnd game2 (CHORD 1 8) =
            Some (game2\<lparr>board := revealAllMines ?b, status := Lost,
                         losingCell := Some (int i, int j)\<rparr>)"
    by blast
  from game2Lost_move [symmetric] red have "Some game2Lost =
      Some (game2\<lparr>board := revealAllMines ?b, status := Lost, losingCell := Some (int i, int j)\<rparr>)"
    by (rule trans)
  then have "game2Lost =
      game2\<lparr>board := revealAllMines ?b, status := Lost, losingCell := Some (int i, int j)\<rparr>"
    by (simp only: option.inject)
  then have "losingCell game2Lost =
      losingCell (game2\<lparr>board := revealAllMines ?b, status := Lost,
                         losingCell := Some (int i, int j)\<rparr>)"
    by (rule arg_cong)
  then have ij: "int i = 0" "int j = 7" by (simp_all add: game2Lost_def)
  from red have "reducer gameRnd game2 (CHORD 1 8) =
      Some (game2\<lparr>board := revealAllMines ?b, status := Lost, losingCell := Some (0, 7)\<rparr>)"
    by (simp only: ij)
  with a game2_chord cells show ?thesis by blast
qed

text \<open>
  Claim C3 as stated fails. \<open>revealAllMines\<close> reveals a flagged mine, which is then both
  revealed and flagged; so does a losing move: in a game reached from the initial state
  (first click on (4,4), flags on (0,8) and on the mine (0,0)), the chord on (1,8) ends in
  status \<open>lost\<close> with the flagged mine (0,0) revealed. And NewGame, after the first click,
  replaces the revealed cell (4,4) by an unrevealed one.
\<close>

theorem engine_invariants_counterexample:
  "noRevealedFlag flaggedMine \<and> \<not> noRevealedFlag (revealAllMines flaggedMine) \<and>
   reachable game3 \<and> noRevealedFlag (board game3) \<and>
   reducer gameRnd game3 (CHORD 1 8) = Some game3Lost \<and>
   isRevealed (board game3Lost ! 0 ! 0) \<and> isFlagged (board game3Lost ! 0 ! 0) \<and>
   \<not> noRevealedFlag (board game3Lost) \<and>
   reachable game1 \<and> isRevealed (board game1 ! 4 ! 4) \<and>
   reducer gameRnd game1 NEW_GAME = Some (makeInitialState Beginner) \<and>
   \<not> isRevealed (board (makeInitialState Beginner) ! 4 ! 4)"
proof -
  have "noRevealedFlag flaggedMine \<and> \<not> noRevealedFlag (revealAllMines flaggedMine)"
    by (simp add: noRevealedFlag_def flaggedMine_def revealAllMines_def makeCell_def)
  moreover have "isRevealed (board game3Lost ! 0 ! 0) \<and> isFlagged (board game3Lost ! 0 ! 0) \<and>
      \<not> noRevealedFlag (board game3Lost)"
    by code_simp
  moreover have "isRevealed (board game1 ! 4 ! 4) \<and>
      \<not> isRevealed (board (makeInitialState Beginner) ! 4 ! 4)"
    by code_simp
  moreover have "reducer gameRnd game1 NEW_GAME = Some (makeInitialState Beginner)"
    by (simp add: game1_def makeInitialState_def)
  ultimately show ?thesis
    using reachable_game3 reachable_game1 game3_facts game3Lost_move by blast
qed

definition flagRowOpened :: Board where
  "flagRowOpened = [[makeCell\<lparr>isRevealed := True\<rparr>, makeCell\<lparr>isFlagged := True\<rparr>, makeCell]]"

theorem engine_invariants_witness:
  "revealCell flagRow 0 0 = Some flagRowOpened \<and> noRevealedFlag flagRow \<and>
   revealedKept flagRow flagRowOpened \<and> noRevealedFlag flagRowOpened \<and>
   noRevealedFlag (board game2) \<and> noFlaggedMine (board game2) \<and>
   noRevealedFlag (revealAllMines (board game2)) \<and>
   reducer gameRnd (makeInitialState Beginner) (REVEAL 4 4) = Some game1 \<and>
   revealedKept (board (makeInitialState Beginner)) (board game1) \<and>
   noRevealedFlag (board game1) \<and>
   status game2 = Playing \<and> reducer gameRnd game2 (CHORD 1 8) = Some game2Lost \<and>
   status game2Lost = Lost \<and> noFlaggedMine (board game2Lost) \<and>
   revealedKept (board game2) (board game2Lost) \<and> noRevealedFlag (board game2Lost) \<and>
   reducer gameRnd game1 NEW_GAME = Some (makeInitialState Beginner) \<and>
   freshBoard (board (makeInitialState Beginner))"
proof -
  have fr: "revealCell flagRow 0 0 = Some flagRowOpened"
    using revealCell_flagRow by (simp add: flagRowOpened_def)
  have f0: "noRevealedFlag flagRow"
    by (simp add: noRevealedFlag_def flagRow_def makeCell_def)
  have i0: "noRevealedFlag (board (makeInitialState Beginner))"
    and l2: "status game2Lost = Lost"
    by code_simp+
  have ng: "reducer gameRnd game1 NEW_GAME = Some (makeInitialState Beginner)"
    by (simp add: game1_def makeInitialState_def)
  note c2 = conjunct2
  have 1: "revealedKept flagRow flagRowOpened \<and> noRevealedFlag flagRowOpened"
    using engine_invariants [of gameRnd flagRow 0 0 0 flagRowOpened game1 game1 Beginner,
        THEN c2, THEN c2, THEN conjunct1] fr f0
    by blast
  have 2: "noRevealedFlag (revealAllMines (board game2))"
    using engine_invariants [of gameRnd "board game2" 0 0 0 flagRowOpened game1 game1 Beginner,
        THEN c2, THEN c2, THEN c2, THEN c2, THEN c2, THEN c2, THEN conjunct1] game2_facts
    by blast
  have s1: "status game1 \<noteq> Lost" by code_simp
  have 3: "revealedKept (board (makeInitialState Beginner)) (board game1) \<and>
      noRevealedFlag (board game1)"
    using engine_invariants [of gameRnd flagRow 0 4 4 flagRowOpened "makeInitialState Beginner"
        game1 Beginner,
        THEN c2, THEN c2, THEN c2, THEN c2, THEN c2, THEN c2, THEN c2, THEN conjunct1]
      game1_move i0 s1
    by blast
  have 4: "revealedKept (board game2) (board game2Lost)"
    using engine_invariants [of gameRnd flagRow 0 1 8 flagRowOpened game2 game2Lost Beginner,
        THEN c2, THEN c2, THEN c2, THEN c2, THEN c2, THEN c2, THEN c2, THEN conjunct1]
      game2Lost_move
    by blast
  have 6: "noFlaggedMine (board game2Lost) \<and> noRevealedFlag (board game2Lost)"
    using engine_invariants [of gameRnd flagRow 0 1 8 flagRowOpened game2 game2Lost Beginner,
        THEN c2, THEN c2, THEN c2, THEN c2, THEN c2, THEN c2, THEN c2, THEN c2, THEN conjunct1]
      game2Lost_move game2_facts
    by blast
  have 5: "freshBoard (board (makeInitialState Beginner))"
    using engine_invariants [of gameRnd flagRow 0 1 8 flagRowOpened game1
        "makeInitialState Beginner" Beginner,
        THEN c2, THEN c2, THEN c2, THEN c2, THEN c2, THEN c2, THEN c2, THEN c2, THEN c2] ng
    by blast
  show ?thesis
    by (intro conjI)
       (use fr f0 1 2 3 4 5 6 game2_facts game1_move game2Lost_move l2 ng in \<open>blast+\<close>)
qed

end
